theory Spec2Isabelle
  imports Complex_Main "HOL-Library.Multiset"
begin

section \<open>Numbers\<close>

text \<open>
  The cache computes with JavaScript numbers in three places: timestamps and
  time-to-live values in milliseconds, the item count of the store, and the default
  \<open>Infinity\<close> of \<open>defaultTTL\<close> and \<open>maximalItemCount\<close>. They are modelled as real
  numbers extended by positive infinity, so that a fractional \<open>maximalItemCount\<close>
  is an input like any other; the rounding of doubles, \<open>NaN\<close> and \<open>-Infinity\<close>
  are outside the model.
\<close>

datatype jsnum = Num real | PosInf

instantiation jsnum :: linorder
begin

fun less_eq_jsnum :: "jsnum \<Rightarrow> jsnum \<Rightarrow> bool" where
  "less_eq_jsnum (Num a) (Num b) = (a \<le> b)"
| "less_eq_jsnum (Num a) PosInf = True"
| "less_eq_jsnum PosInf (Num b) = False"
| "less_eq_jsnum PosInf PosInf = True"

fun less_jsnum :: "jsnum \<Rightarrow> jsnum \<Rightarrow> bool" where
  "less_jsnum (Num a) (Num b) = (a < b)"
| "less_jsnum (Num a) PosInf = True"
| "less_jsnum PosInf b = False"

instance
proof
  fix x y z :: jsnum
  show "(x < y) = (x \<le> y \<and> \<not> y \<le> x)"
    by (cases x; cases y) auto
  show "x \<le> x"
    by (cases x) auto
  show "x \<le> y \<Longrightarrow> y \<le> z \<Longrightarrow> x \<le> z"
    by (cases x; cases y; cases z) auto
  show "x \<le> y \<Longrightarrow> y \<le> x \<Longrightarrow> x = y"
    by (cases x; cases y) auto
  show "x \<le> y \<or> y \<le> x"
    by (cases x; cases y) auto
qed

end

instantiation jsnum :: plus
begin

fun plus_jsnum :: "jsnum \<Rightarrow> jsnum \<Rightarrow> jsnum" where
  "plus_jsnum (Num a) (Num b) = Num (a + b)"
| "plus_jsnum (Num a) PosInf = PosInf"
| "plus_jsnum PosInf b = PosInf"

instance ..

end

section \<open>The backing store: an ES6 Map\<close>

text \<open>
  \<open>options.cache\<close> is a JavaScript \<open>Map\<close>: at most one entry per key, iterated in
  insertion order. It is an association list in insertion order. \<open>Map.set\<close> on a
  key that is present replaces the value where the entry stands; on a new key it
  appends the entry.
\<close>

fun map_set :: "'k \<Rightarrow> 'a \<Rightarrow> ('k \<times> 'a) list \<Rightarrow> ('k \<times> 'a) list" where
  "map_set k v [] = [(k, v)]"
| "map_set k v ((k', v') # m) =
     (if k' = k then (k, v) # m else (k', v') # map_set k v m)"

definition map_get :: "'k \<Rightarrow> ('k \<times> 'a) list \<Rightarrow> 'a option" where
  "map_get k m = map_of m k"

definition map_has :: "'k \<Rightarrow> ('k \<times> 'a) list \<Rightarrow> bool" where
  "map_has k m = (map_of m k \<noteq> None)"

definition map_delete :: "'k \<Rightarrow> ('k \<times> 'a) list \<Rightarrow> ('k \<times> 'a) list" where
  "map_delete k m = filter (\<lambda>e. fst e \<noteq> k) m"

definition map_size :: "('k \<times> 'a) list \<Rightarrow> nat" where
  "map_size m = length m"

text \<open>\<open>m.keys().next().value\<close>: the first key in insertion order, \<open>undefined\<close> when empty.\<close>

definition map_first_key :: "('k \<times> 'a) list \<Rightarrow> 'k option" where
  "map_first_key m = (case m of [] \<Rightarrow> None | e # _ \<Rightarrow> Some (fst e))"

section \<open>The recency queue\<close>

text \<open>
  \<open>Cache.ts\<close> imports the class \<open>LRUQueue\<close> from \<open>./LRUQueue\<close> and calls its
  methods \<open>push\<close>, \<open>touch\<close>, \<open>shift\<close>, \<open>delete\<close> and \<open>clear\<close>. The cache's
  functions below take the queue's operations as a parameter \<open>Q\<close>, so that what is
  proved for every \<open>Q\<close> holds whatever the queue does.
\<close>

record ('k, 'q) queue_ops =
  queue_new :: 'q
  queue_push :: "'k \<Rightarrow> 'q \<Rightarrow> 'q"
  queue_touch :: "'k \<Rightarrow> 'q \<Rightarrow> 'q"
  queue_shift :: "'q \<Rightarrow> 'k option \<times> 'q"
  queue_delete :: "'k \<Rightarrow> 'q \<Rightarrow> 'q"
  queue_clear :: "'q \<Rightarrow> 'q"

text \<open>
  Modelled from the spec: the methods of the class \<open>LRUQueue\<close> (file
  \<open>LRUQueue.ts\<close>, the spec's UsageOrder). The queue is the list of tracked keys,
  least recently used first. \<open>push\<close> inserts the key at the most-recently-used end.
  The spec gives \<open>push\<close> the precondition that the key is not tracked; on a
  tracked key the list gets a second entry for it, the first one staying in place.
\<close>

definition LRUQueue_push :: "'k \<Rightarrow> 'k list \<Rightarrow> 'k list" where
  "LRUQueue_push k q = q @ [k]"

text \<open>
  Modelled from the spec: \<open>LRUQueue.touch\<close>. A tracked key moves to the
  most-recently-used end; an untracked key is a no-op.
\<close>

definition LRUQueue_touch :: "'k \<Rightarrow> 'k list \<Rightarrow> 'k list" where
  "LRUQueue_touch k q = (if k \<in> set q then removeAll k q @ [k] else q)"

text \<open>
  Modelled from the spec: \<open>LRUQueue.shift\<close>. It removes and returns the least
  recently used key, or \<open>undefined\<close> (\<open>None\<close>) when no key is tracked.
\<close>

definition LRUQueue_shift :: "'k list \<Rightarrow> 'k option \<times> 'k list" where
  "LRUQueue_shift q = (case q of [] \<Rightarrow> (None, []) | k # r \<Rightarrow> (Some k, r))"

text \<open>
  Modelled from the spec: \<open>LRUQueue.delete\<close>. It removes the key from the order if
  present, and is a no-op if absent. Of a key with two entries, which the spec does
  not describe, it removes both.
\<close>

definition LRUQueue_delete :: "'k \<Rightarrow> 'k list \<Rightarrow> 'k list" where
  "LRUQueue_delete k q = removeAll k q"

text \<open>Modelled from the spec: \<open>LRUQueue.clear\<close>. It removes all tracked keys.\<close>

definition LRUQueue_clear :: "'k list \<Rightarrow> 'k list" where
  "LRUQueue_clear q = []"

text \<open>
  Modelled from the spec: the class \<open>LRUQueue\<close> as a whole, \<open>new LRUQueue()\<close>
  tracking no key.
\<close>

definition LRUQueue :: "('k, 'k list) queue_ops" where
  "LRUQueue = \<lparr> queue_new = [], queue_push = LRUQueue_push, queue_touch = LRUQueue_touch,
     queue_shift = LRUQueue_shift, queue_delete = LRUQueue_delete,
     queue_clear = LRUQueue_clear \<rparr>"




section \<open>Items, options and the cache\<close>

text \<open>
  \<open>IItem\<close>. A dispose callback is an opaque effect: it is a token \<open>'d\<close>, and calling
  it appends the token to the log \<open>disposed\<close> of the cache's state.
\<close>

record ('v, 'd) item =
  item_value :: 'v
  expireAfterTimestamp :: jsnum
  storageTimestamp :: jsnum
  item_dispose :: "'d option"

datatype CacheStrategy = Age | Lru

datatype error = Error string | TypeError

text \<open>\<open>Partial<IOptions>\<close>, the constructor's argument: every field may be left out.\<close>

record ('k, 'v, 'd) IOptions =
  arg_defaultTTL :: "jsnum option"
  arg_maximalItemCount :: "jsnum option"
  arg_cache :: "('k \<times> ('v, 'd) item) list option"
  arg_evictExceedingItemsBy :: "CacheStrategy option"

text \<open>\<open>ISetItemOptions\<close>, the third argument of \<open>set\<close>.\<close>

record 'd ISetItemOptions =
  opt_ttl :: "jsnum option"
  opt_storageTimestamp :: "jsnum option"
  opt_dispose :: "'d option"

text \<open>
  The object: the frozen options (of which the Map \<open>cache\<close> is mutated in place), the
  queue, and the log of the dispose callbacks called so far.
\<close>

record ('k, 'v, 'd, 'q) Cache =
  defaultTTL :: jsnum
  maximalItemCount :: jsnum
  evictExceedingItemsBy :: CacheStrategy
  cache :: "('k \<times> ('v, 'd) item) list"
  lruQueue :: 'q
  disposed :: "'d list"

definition newCache ::
  "('k, 'q) queue_ops \<Rightarrow> ('k, 'v, 'd) IOptions \<Rightarrow> error + ('k, 'v, 'd, 'q) Cache" where
  "newCache Q args =
     (let dTTL = (case arg_defaultTTL args of None \<Rightarrow> PosInf | Some t \<Rightarrow> t);
          maxCount = (case arg_maximalItemCount args of None \<Rightarrow> PosInf | Some n \<Rightarrow> n);
          store = (case arg_cache args of None \<Rightarrow> [] | Some m \<Rightarrow> m);
          strategy = (case arg_evictExceedingItemsBy args of None \<Rightarrow> Lru | Some c \<Rightarrow> c)
      in if dTTL < Num 0 then
           Inl (Error ''Please supply a `ttl` value greater than zero.'')
         else if maxCount < Num 1 then
           Inl (Error ''Please supply a `maximalItemCount` parameter that is greater than zero, or do not supply the parameter to allow an infinite number of items.'')
         else
           Inr \<lparr> defaultTTL = dTTL, maximalItemCount = maxCount,
                 evictExceedingItemsBy = strategy, cache = store,
                 lruQueue = queue_new Q, disposed = [] \<rparr>)"

section \<open>The operations\<close>

text \<open>
  A method returns its result and the state it leaves. A thrown exception is the
  result \<open>Inl\<close>, with the state as mutated up to the throw.
\<close>

definition peekItem :: "'k \<Rightarrow> ('k, 'v, 'd, 'q) Cache \<Rightarrow> ('v, 'd) item option" where
  "peekItem key s = map_get key (cache s)"

definition peek :: "'k \<Rightarrow> ('k, 'v, 'd, 'q) Cache \<Rightarrow> 'v option" where
  "peek key s = (case peekItem key s of None \<Rightarrow> None | Some i \<Rightarrow> Some (item_value i))"

definition has :: "'k \<Rightarrow> ('k, 'v, 'd, 'q) Cache \<Rightarrow> bool" where
  "has key s = map_has key (cache s)"

definition size_c :: "('k, 'v, 'd, 'q) Cache \<Rightarrow> nat" where
  "size_c s = map_size (cache s)"

text \<open>
  The private \<open>dispose(key)\<close>: \<open>item.dispose\<close> on the \<open>undefined\<close> that
  \<open>peekItem\<close> returns for an untracked key throws a TypeError.
\<close>

definition dispose ::
  "'k \<Rightarrow> ('k, 'v, 'd, 'q) Cache \<Rightarrow> (error + unit) \<times> ('k, 'v, 'd, 'q) Cache" where
  "dispose key s =
     (case peekItem key s of
        None \<Rightarrow> (Inl TypeError, s)
      | Some i \<Rightarrow>
          (case item_dispose i of
             None \<Rightarrow> (Inr (), s)
           | Some d \<Rightarrow> (Inr (), s\<lparr>disposed := disposed s @ [d]\<rparr>)))"

text \<open>The callbacks that disposing of an item calls: its own, if it has one.\<close>

definition callbacks :: "('v, 'd) item \<Rightarrow> 'd list" where
  "callbacks i = (case item_dispose i of None \<Rightarrow> [] | Some d \<Rightarrow> [d])"

definition delete ::
  "('k, 'q) queue_ops \<Rightarrow> 'k \<Rightarrow> ('k, 'v, 'd, 'q) Cache \<Rightarrow>
     (error + bool) \<times> ('k, 'v, 'd, 'q) Cache" where
  "delete Q key s =
     (case dispose key s of
        (Inl e, s1) \<Rightarrow> (Inl e, s1)
      | (Inr u, s1) \<Rightarrow>
          (let s2 = s1\<lparr>lruQueue := queue_delete Q key (lruQueue s1)\<rparr>
           in (Inr (map_has key (cache s2)), s2\<lparr>cache := map_delete key (cache s2)\<rparr>)))"

definition deleteOldestItem ::
  "('k, 'q) queue_ops \<Rightarrow> ('k, 'v, 'd, 'q) Cache \<Rightarrow>
     (error + unit) \<times> ('k, 'v, 'd, 'q) Cache" where
  "deleteOldestItem Q s =
     (case map_first_key (cache s) of
        None \<Rightarrow> (Inr (), s)
      | Some key \<Rightarrow>
          (case delete Q key s of
             (Inl e, s1) \<Rightarrow> (Inl e, s1)
           | (Inr b, s1) \<Rightarrow> (Inr (), s1)))"

text \<open>
  \<open>shift()\<close> may return \<open>undefined\<close>; \<open>dispose(undefined)\<close> then finds no item and
  throws, after the queue has been shifted.
\<close>

definition deleteLeastRecentlyUsedItem ::
  "('k, 'q) queue_ops \<Rightarrow> ('k, 'v, 'd, 'q) Cache \<Rightarrow>
     (error + bool) \<times> ('k, 'v, 'd, 'q) Cache" where
  "deleteLeastRecentlyUsedItem Q s =
     (case queue_shift Q (lruQueue s) of
        (None, q1) \<Rightarrow> (Inl TypeError, s\<lparr>lruQueue := q1\<rparr>)
      | (Some key, q1) \<Rightarrow>
          (case dispose key (s\<lparr>lruQueue := q1\<rparr>) of
             (Inl e, s1) \<Rightarrow> (Inl e, s1)
           | (Inr u, s1) \<Rightarrow>
               (let s2 = s1\<lparr>lruQueue := queue_delete Q key (lruQueue s1)\<rparr>
                in (Inr (map_has key (cache s2)),
                    s2\<lparr>cache := map_delete key (cache s2)\<rparr>))))"

text \<open>One pass of the body of the \<open>while\<close> loop of \<open>set\<close>: the \<open>switch\<close>.\<close>

definition evictOne ::
  "('k, 'q) queue_ops \<Rightarrow> ('k, 'v, 'd, 'q) Cache \<Rightarrow>
     (error + unit) \<times> ('k, 'v, 'd, 'q) Cache" where
  "evictOne Q s =
     (case evictExceedingItemsBy s of
        Age \<Rightarrow> deleteOldestItem Q s
      | Lru \<Rightarrow>
          (case deleteLeastRecentlyUsedItem Q s of
             (Inl e, s1) \<Rightarrow> (Inl e, s1)
           | (Inr b, s1) \<Rightarrow> (Inr (), s1)))"

text \<open>
  The loop \<open>while (cache.size >= maximalItemCount)\<close>. With the strategy \<open>age\<close>, an
  empty store and a capacity below one it would not end: not returning is \<open>None\<close>.
\<close>

partial_function (option) evictLoop ::
  "('k, 'q) queue_ops \<Rightarrow> ('k, 'v, 'd, 'q) Cache \<Rightarrow>
     ((error + unit) \<times> ('k, 'v, 'd, 'q) Cache) option" where
  "evictLoop Q s =
     (if maximalItemCount s \<le> Num (real (map_size (cache s))) then
        (case evictOne Q s of
           (Inl e, s1) \<Rightarrow> Some (Inl e, s1)
         | (Inr u, s1) \<Rightarrow> evictLoop Q s1)
      else Some (Inr (), s))"

text \<open>
  The first lines of \<open>set(key, value, options)\<close>. The default parameters: \<open>ttl\<close> is
  \<open>options.defaultTTL\<close> and \<open>storageTimestamp\<close> is \<open>Date.now()\<close> (here \<open>now\<close>)
  when the options leave them out. Then the item: an unbounded TTL never expires.
\<close>

definition ttl_of :: "'d ISetItemOptions \<Rightarrow> ('k, 'v, 'd, 'q) Cache \<Rightarrow> jsnum" where
  "ttl_of opts s = (case opt_ttl opts of None \<Rightarrow> defaultTTL s | Some t \<Rightarrow> t)"

definition storageTimestamp_of :: "'d ISetItemOptions \<Rightarrow> jsnum \<Rightarrow> jsnum" where
  "storageTimestamp_of opts now = (case opt_storageTimestamp opts of None \<Rightarrow> now | Some t \<Rightarrow> t)"

definition newItem ::
  "jsnum \<Rightarrow> 'v \<Rightarrow> 'd ISetItemOptions \<Rightarrow> ('k, 'v, 'd, 'q) Cache \<Rightarrow> ('v, 'd) item" where
  "newItem now v opts s =
     \<lparr> item_value = v,
       expireAfterTimestamp =
         (if ttl_of opts s < PosInf then storageTimestamp_of opts now + ttl_of opts s
          else PosInf),
       storageTimestamp = storageTimestamp_of opts now,
       item_dispose = opt_dispose opts \<rparr>"

text \<open>
  \<open>set(key, value, options)\<close>: a TTL that is not positive is refused; otherwise the
  loop frees capacity, the key is pushed on the queue and the item is written.
\<close>

definition set_c ::
  "('k, 'q) queue_ops \<Rightarrow> jsnum \<Rightarrow> 'k \<Rightarrow> 'v \<Rightarrow> 'd ISetItemOptions \<Rightarrow>
     ('k, 'v, 'd, 'q) Cache \<Rightarrow> ((error + bool) \<times> ('k, 'v, 'd, 'q) Cache) option" where
  "set_c Q now key v opts s =
     (if ttl_of opts s \<le> Num 0 then Some (Inr False, s)
      else
        (case evictLoop Q s of
           None \<Rightarrow> None
         | Some (Inl e, s1) \<Rightarrow> Some (Inl e, s1)
         | Some (Inr u, s1) \<Rightarrow>
             Some (Inr True,
                   s1\<lparr>lruQueue := queue_push Q key (lruQueue s1),
                      cache := map_set key (newItem now v opts s) (cache s1)\<rparr>)))"

definition getItem ::
  "('k, 'q) queue_ops \<Rightarrow> 'k \<Rightarrow> jsnum \<Rightarrow> ('k, 'v, 'd, 'q) Cache \<Rightarrow>
     (error + ('v, 'd) item option) \<times> ('k, 'v, 'd, 'q) Cache" where
  "getItem Q key ifNotExpiredOnTimestamp s =
     (let found = map_get key (cache s)
      in if (case found of None \<Rightarrow> False
             | Some i \<Rightarrow> expireAfterTimestamp i \<le> ifNotExpiredOnTimestamp) then
           (case delete Q key s of
              (Inl e, s1) \<Rightarrow> (Inl e, s1)
            | (Inr b, s1) \<Rightarrow> (Inr None, s1))
         else (Inr found, s\<lparr>lruQueue := queue_touch Q key (lruQueue s)\<rparr>))"

definition get_c ::
  "('k, 'q) queue_ops \<Rightarrow> 'k \<Rightarrow> jsnum \<Rightarrow> ('k, 'v, 'd, 'q) Cache \<Rightarrow>
     (error + 'v option) \<times> ('k, 'v, 'd, 'q) Cache" where
  "get_c Q key ifNotExpiredOnTimestamp s =
     (case getItem Q key ifNotExpiredOnTimestamp s of
        (Inl e, s1) \<Rightarrow> (Inl e, s1)
      | (Inr None, s1) \<Rightarrow> (Inr None, s1)
      | (Inr (Some i), s1) \<Rightarrow> (Inr (Some (item_value i)), s1))"

text \<open>
  \<open>evictExpiredItems\<close>: the \<open>for ... of\<close> loop visits the entries of the Map in
  insertion order. The body deletes no entry but the one it visits, so the entries
  visited are those the Map held when the loop began.
\<close>

fun evictExpiredLoop ::
  "('k, 'q) queue_ops \<Rightarrow> jsnum \<Rightarrow> ('k \<times> ('v, 'd) item) list \<Rightarrow> ('k, 'v, 'd, 'q) Cache \<Rightarrow>
     (error + unit) \<times> ('k, 'v, 'd, 'q) Cache" where
  "evictExpiredLoop Q t [] s = (Inr (), s)"
| "evictExpiredLoop Q t (e # es) s =
     (if expireAfterTimestamp (snd e) \<le> t then
        (case delete Q (fst e) s of
           (Inl err, s1) \<Rightarrow> (Inl err, s1)
         | (Inr b, s1) \<Rightarrow> evictExpiredLoop Q t es s1)
      else evictExpiredLoop Q t es s)"

definition evictExpiredItems ::
  "('k, 'q) queue_ops \<Rightarrow> jsnum \<Rightarrow> ('k, 'v, 'd, 'q) Cache \<Rightarrow>
     (error + unit) \<times> ('k, 'v, 'd, 'q) Cache" where
  "evictExpiredItems Q ifOlderThanTimestamp s =
     evictExpiredLoop Q ifOlderThanTimestamp (cache s) s"

definition clear ::
  "('k, 'q) queue_ops \<Rightarrow> ('k, 'v, 'd, 'q) Cache \<Rightarrow> ('k, 'v, 'd, 'q) Cache" where
  "clear Q s = s\<lparr>cache := [], lruQueue := queue_clear Q (lruQueue s)\<rparr>"

text \<open>
  \<open>setTTL\<close> assigns to a field of the item object the Map holds; on the
  \<open>undefined\<close> of an untracked key the assignment throws a TypeError.
\<close>

definition setTTL ::
  "'k \<Rightarrow> jsnum \<Rightarrow> jsnum \<Rightarrow> ('k, 'v, 'd, 'q) Cache \<Rightarrow>
     (error + jsnum) \<times> ('k, 'v, 'd, 'q) Cache" where
  "setTTL key ttl beginningFromTimestamp s =
     (case map_get key (cache s) of
        None \<Rightarrow> (Inl TypeError, s)
      | Some i \<Rightarrow>
          (Inr (beginningFromTimestamp + ttl),
           s\<lparr>cache := map_set key (i\<lparr>expireAfterTimestamp := beginningFromTimestamp + ttl\<rparr>)
                         (cache s)\<rparr>))"

section \<open>Sequences of calls\<close>

text \<open>
  A caller's view of the public interface: one constructor per public method, with
  the value of \<open>Date.now()\<close> where the method reads it. \<open>exec\<close> gives the state a call
  leaves (also when it throws: the caller may catch and go on), \<open>None\<close> when the
  call does not return. \<open>run\<close> performs a sequence of calls.
\<close>

datatype ('k, 'v, 'd) call =
    CSet 'k 'v "'d ISetItemOptions" jsnum
  | CPeekItem 'k
  | CPeek 'k
  | CGetItem 'k jsnum
  | CGet 'k jsnum
  | CEvictExpiredItems jsnum
  | CHas 'k
  | CDelete 'k
  | CClear
  | CSize
  | CSetTTL 'k jsnum jsnum

fun exec ::
  "('k, 'q) queue_ops \<Rightarrow> ('k, 'v, 'd) call \<Rightarrow> ('k, 'v, 'd, 'q) Cache \<Rightarrow>
     ('k, 'v, 'd, 'q) Cache option" where
  "exec Q (CSet key v opts now) s = map_option snd (set_c Q now key v opts s)"
| "exec Q (CPeekItem key) s = Some s"
| "exec Q (CPeek key) s = Some s"
| "exec Q (CGetItem key t) s = Some (snd (getItem Q key t s))"
| "exec Q (CGet key t) s = Some (snd (get_c Q key t s))"
| "exec Q (CEvictExpiredItems t) s = Some (snd (evictExpiredItems Q t s))"
| "exec Q (CHas key) s = Some s"
| "exec Q (CDelete key) s = Some (snd (delete Q key s))"
| "exec Q CClear s = Some (clear Q s)"
| "exec Q CSize s = Some s"
| "exec Q (CSetTTL key ttl t) s = Some (snd (setTTL key ttl t s))"

fun run ::
  "('k, 'q) queue_ops \<Rightarrow> ('k, 'v, 'd) call list \<Rightarrow> ('k, 'v, 'd, 'q) Cache \<Rightarrow>
     ('k, 'v, 'd, 'q) Cache option" where
  "run Q [] s = Some s"
| "run Q (c # cs) s = (case exec Q c s of None \<Rightarrow> None | Some s1 \<Rightarrow> run Q cs s1)"

text \<open>
  For the dispose callbacks: \<open>registered c\<close> lists the callback a \<open>set\<close> call \<open>c\<close>
  hands over, and \<open>pending s\<close> the callbacks of the items the store holds, in
  insertion order.
\<close>

fun registered :: "('k, 'v, 'd) call \<Rightarrow> 'd list" where
  "registered (CSet key v opts now) = (case opt_dispose opts of None \<Rightarrow> [] | Some d \<Rightarrow> [d])"
| "registered c = []"

definition pending :: "('k, 'v, 'd, 'q) Cache \<Rightarrow> 'd list" where
  "pending s = concat (map (\<lambda>e. callbacks (snd e)) (cache s))"




section \<open>Facts about the store\<close>

lemma map_of_map_set: "map_of (map_set k v m) = (map_of m)(k \<mapsto> v)"
  by (induction m) auto

lemma keys_map_set:
  "map fst (map_set k v m) = (if k \<in> set (map fst m) then map fst m else map fst m @ [k])"
  by (induction m) (force split: if_splits)+

lemma length_map_set:
  "length (map_set k v m) = (if k \<in> set (map fst m) then length m else Suc (length m))"
  by (induction m) (force split: if_splits)+

lemma keys_map_delete: "map fst (map_delete k m) = removeAll k (map fst m)"
  by (induction m) (auto simp: map_delete_def)

lemma map_of_map_delete: "map_of (map_delete k m) = (map_of m)(k := None)"
  by (induction m) (auto simp: map_delete_def)


lemma length_map_delete_less:
  "map_of m k = Some v \<Longrightarrow> length (map_delete k m) < length m"
proof -
  assume "map_of m k = Some v"
  then have "(k, v) \<in> set m"
    by (rule map_of_SomeD)
  then show ?thesis
    unfolding map_delete_def by (rule length_filter_less) simp
qed

lemma map_has_iff: "map_has k m = (k \<in> set (map fst m))"
  by (simp add: map_has_def map_of_eq_None_iff)

section \<open>Facts about single operations\<close>

text \<open>The tokens \<open>dispose(key)\<close> logs for an item: none without a callback.\<close>

lemma dispose_untracked:
  "map_get key (cache s) = None \<Longrightarrow> dispose key s = (Inl TypeError, s)"
  by (simp add: dispose_def peekItem_def)

lemma dispose_tracked:
  "map_get key (cache s) = Some i \<Longrightarrow>
     dispose key s = (Inr (), s\<lparr>disposed := disposed s @ callbacks i\<rparr>)"
  by (simp add: dispose_def peekItem_def callbacks_def split: option.splits)

lemma delete_untracked:
  "map_get key (cache s) = None \<Longrightarrow> delete Q key s = (Inl TypeError, s)"
  by (simp add: delete_def dispose_untracked)

lemma delete_tracked:
  "map_get key (cache s) = Some i \<Longrightarrow>
     delete Q key s =
       (Inr True,
        s\<lparr>disposed := disposed s @ callbacks i,
          lruQueue := queue_delete Q key (lruQueue s),
          cache := map_delete key (cache s)\<rparr>)"
  by (simp add: delete_def dispose_tracked map_has_def map_get_def)

lemma set_c_returns_true:
  assumes "set_c Q now key v opts s = Some (Inr True, s1)"
  shows "\<exists>s'. evictLoop Q s = Some (Inr (), s') \<and> \<not> ttl_of opts s \<le> Num 0 \<and>
           s1 = s'\<lparr>lruQueue := queue_push Q key (lruQueue s'),
                   cache := map_set key (newItem now v opts s) (cache s')\<rparr>"
  using assms
  by (auto simp: set_c_def split: if_splits option.splits sum.splits prod.splits)

lemma getItem_live:
  "map_get key (cache s) = Some i \<Longrightarrow> \<not> expireAfterTimestamp i \<le> t \<Longrightarrow>
     getItem Q key t s = (Inr (Some i), s\<lparr>lruQueue := queue_touch Q key (lruQueue s)\<rparr>)"
  by (simp add: getItem_def)

lemma getItem_expired:
  "map_get key (cache s) = Some i \<Longrightarrow> expireAfterTimestamp i \<le> t \<Longrightarrow>
     getItem Q key t s =
       (Inr None,
        s\<lparr>disposed := disposed s @ callbacks i,
          lruQueue := queue_delete Q key (lruQueue s),
          cache := map_delete key (cache s)\<rparr>)"
  by (simp add: getItem_def delete_tracked)

lemma getItem_untracked:
  "map_get key (cache s) = None \<Longrightarrow>
     getItem Q key t s = (Inr None, s\<lparr>lruQueue := queue_touch Q key (lruQueue s)\<rparr>)"
  by (simp add: getItem_def)

lemma map_first_key_Some:
  "map_first_key m = Some k \<Longrightarrow> \<exists>i r. m = (k, i) # r"
  by (auto simp: map_first_key_def split: list.splits)

lemma deleteOldestItem_empty:
  "cache s = [] \<Longrightarrow> deleteOldestItem Q s = (Inr (), s)"
  by (simp add: deleteOldestItem_def map_first_key_def)

lemma deleteOldestItem_nonempty:
  "cache s = (k, i) # r \<Longrightarrow>
     deleteOldestItem Q s =
       (Inr (),
        s\<lparr>disposed := disposed s @ callbacks i,
          lruQueue := queue_delete Q k (lruQueue s),
          cache := map_delete k (cache s)\<rparr>)"
  using delete_tracked [of k s i Q]
  by (simp add: deleteOldestItem_def map_first_key_def map_get_def)

lemma deleteLeastRecentlyUsedItem_tracked:
  "queue_shift Q (lruQueue s) = (Some k, q) \<Longrightarrow> map_get k (cache s) = Some i \<Longrightarrow>
     deleteLeastRecentlyUsedItem Q s =
       (Inr True,
        s\<lparr>disposed := disposed s @ callbacks i,
          lruQueue := queue_delete Q k q,
          cache := map_delete k (cache s)\<rparr>)"
  using dispose_tracked [of k "s\<lparr>lruQueue := q\<rparr>" i]
  by (simp add: deleteLeastRecentlyUsedItem_def map_has_def map_get_def)

lemma deleteLeastRecentlyUsedItem_untracked:
  "queue_shift Q (lruQueue s) = (Some k, q) \<Longrightarrow> map_get k (cache s) = None \<Longrightarrow>
     deleteLeastRecentlyUsedItem Q s = (Inl TypeError, s\<lparr>lruQueue := q\<rparr>)"
  using dispose_untracked [of k "s\<lparr>lruQueue := q\<rparr>"]
  by (simp add: deleteLeastRecentlyUsedItem_def)

lemma deleteLeastRecentlyUsedItem_none:
  "queue_shift Q (lruQueue s) = (None, q) \<Longrightarrow>
     deleteLeastRecentlyUsedItem Q s = (Inl TypeError, s\<lparr>lruQueue := q\<rparr>)"
  by (simp add: deleteLeastRecentlyUsedItem_def)

text \<open>What one pass of the loop can do.\<close>

lemma evictOne_cases:
  assumes "evictOne Q s = (r, s1)"
  shows "(\<exists>q. r = Inl TypeError \<and> s1 = s\<lparr>lruQueue := q\<rparr>) \<or>
         (r = Inr () \<and> cache s = [] \<and> s1 = s) \<or>
         (\<exists>k i q. r = Inr () \<and> map_get k (cache s) = Some i \<and>
            s1 = s\<lparr>disposed := disposed s @ callbacks i,
                   lruQueue := q, cache := map_delete k (cache s)\<rparr>)"
proof (cases "evictExceedingItemsBy s")
  case Age
  show ?thesis
  proof (cases "cache s")
    case Nil
    with Age assms show ?thesis
      by (simp add: evictOne_def deleteOldestItem_empty)
  next
    case (Cons e es)
    obtain k i where e: "e = (k, i)" by (cases e)
    have "map_get k (cache s) = Some i"
      by (simp add: Cons e map_get_def)
    with Age assms deleteOldestItem_nonempty [of s k i es Q] Cons e show ?thesis
      by (auto simp: evictOne_def)
  qed
next
  case Lru
  obtain ko q where sh: "queue_shift Q (lruQueue s) = (ko, q)"
    by (cases "queue_shift Q (lruQueue s)")
  show ?thesis
  proof (cases ko)
    case None
    with Lru assms sh deleteLeastRecentlyUsedItem_none [of Q s q] show ?thesis
      by (auto simp: evictOne_def)
  next
    case (Some k)
    show ?thesis
    proof (cases "map_get k (cache s)")
      case None
      with Lru assms sh Some deleteLeastRecentlyUsedItem_untracked [of Q s k q] show ?thesis
        by (auto simp: evictOne_def)
    next
      case (Some i)
      with Lru assms sh \<open>ko = Some k\<close> deleteLeastRecentlyUsedItem_tracked [of Q s k q i]
      show ?thesis
        by (auto simp: evictOne_def)
    qed
  qed
qed

lemma evictLoop_rule:
  assumes cap: "Num 1 \<le> maximalItemCount s"
    and inv: "I s"
    and step: "\<And>s' r s1. I s' \<Longrightarrow> maximalItemCount s' \<le> Num (real (map_size (cache s'))) \<Longrightarrow>
                 evictOne Q s' = (r, s1) \<Longrightarrow> I s1"
  shows "\<exists>r s1. evictLoop Q s = Some (r, s1) \<and> I s1 \<and>
           maximalItemCount s1 = maximalItemCount s \<and>
           (r = Inr () \<longrightarrow> \<not> maximalItemCount s1 \<le> Num (real (map_size (cache s1))))"
  using cap inv
proof (induction "length (cache s)" arbitrary: s rule: less_induct)
  case less
  show ?case
  proof (cases "maximalItemCount s \<le> Num (real (map_size (cache s)))")
    case False
    then show ?thesis
      using less.prems by (subst evictLoop.simps) simp
  next
    case True
    obtain r s1 where ev: "evictOne Q s = (r, s1)"
      by (cases "evictOne Q s")
    have I1: "I s1"
      using step [OF less.prems(2) True ev] .
    from evictOne_cases [OF ev] consider
      (thrown) q where "r = Inl TypeError" "s1 = s\<lparr>lruQueue := q\<rparr>"
      | (idle) "r = Inr ()" "cache s = []" "s1 = s"
      | (evicted) k i q where "r = Inr ()" "map_get k (cache s) = Some i"
          "s1 = s\<lparr>disposed := disposed s @ callbacks i,
                   lruQueue := q, cache := map_delete k (cache s)\<rparr>"
      by blast
    then show ?thesis
    proof cases
      case thrown
      with True ev I1 show ?thesis
        by (subst evictLoop.simps) simp
    next
      case idle
      with True less.prems(1) have False
        by (cases "maximalItemCount s") (simp_all add: map_size_def)
      then show ?thesis ..
    next
      case evicted
      have shorter: "length (cache s1) < length (cache s)"
        using evicted(2,3) length_map_delete_less [of "cache s" k i] by (simp add: map_get_def)
      have cap1: "Num 1 \<le> maximalItemCount s1"
        using evicted(3) less.prems(1) by simp
      from less.hyps [OF shorter cap1 I1] obtain r2 s2 where
        "evictLoop Q s1 = Some (r2, s2)" "I s2" "maximalItemCount s2 = maximalItemCount s1"
        "r2 = Inr () \<longrightarrow> \<not> maximalItemCount s2 \<le> Num (real (map_size (cache s2)))"
        by blast
      with True ev evicted(1,3) show ?thesis
        by (subst evictLoop.simps) simp
    qed
  qed
qed

lemma evictExpiredLoop_rule:
  assumes inv: "I s"
    and removal: "\<And>s' k i. I s' \<Longrightarrow> map_get k (cache s') = Some i \<Longrightarrow>
        I (s'\<lparr>disposed := disposed s' @ callbacks i, lruQueue := queue_delete Q k (lruQueue s'),
               cache := map_delete k (cache s')\<rparr>)"
  shows "I (snd (evictExpiredLoop Q t es s))"
  using inv
proof (induction es arbitrary: s)
  case Nil
  then show ?case by simp
next
  case (Cons e es)
  show ?case
  proof (cases "expireAfterTimestamp (snd e) \<le> t")
    case False
    with Cons show ?thesis by simp
  next
    case True
    show ?thesis
    proof (cases "map_get (fst e) (cache s)")
      case None
      with True Cons.prems show ?thesis
        by (simp add: delete_untracked)
    next
      case (Some i)
      from removal [OF Cons.prems Some] Cons.IH True Some show ?thesis
        by (simp add: delete_tracked)
    qed
  qed
qed

lemma update_lruQueue_cache:
  "s\<lparr>lruQueue := q, cache := m\<rparr> = s\<lparr>cache := m, lruQueue := q\<rparr>"
  by (cases s) simp

text \<open>
  An invariant \<open>I\<close> of the steps a call is made of, and what it gives after the
  call: \<open>K\<close>, which the write at the end of \<open>set\<close> establishes.
\<close>

lemma exec_rule_post:
  assumes cap: "Num 1 \<le> maximalItemCount s"
    and inv: "I s"
    and queue: "\<And>s' q. I s' \<Longrightarrow> I (s'\<lparr>lruQueue := q\<rparr>)"
    and removal: "\<And>s' k i. I s' \<Longrightarrow> map_get k (cache s') = Some i \<Longrightarrow>
        I (s'\<lparr>disposed := disposed s' @ callbacks i, cache := map_delete k (cache s')\<rparr>)"
    and insertion: "\<And>s' k v opts now i. c = CSet k v opts now \<Longrightarrow> I s' \<Longrightarrow>
        \<not> maximalItemCount s' \<le> Num (real (map_size (cache s'))) \<Longrightarrow>
        item_value i = v \<Longrightarrow> item_dispose i = opt_dispose opts \<Longrightarrow>
        K (s'\<lparr>cache := map_set k i (cache s')\<rparr>)"
    and queue_post: "\<And>s' q. K s' \<Longrightarrow> K (s'\<lparr>lruQueue := q\<rparr>)"
    and weaken: "\<And>s'. I s' \<Longrightarrow> K s'"
    and clearing: "\<And>s'. c = CClear \<Longrightarrow> I s' \<Longrightarrow> I (s'\<lparr>cache := []\<rparr>)"
    and retiming: "\<And>s' k i e. I s' \<Longrightarrow> map_get k (cache s') = Some i \<Longrightarrow>
        I (s'\<lparr>cache := map_set k (i\<lparr>expireAfterTimestamp := e\<rparr>) (cache s')\<rparr>)"
  shows "\<exists>s1. exec Q c s = Some s1 \<and> K s1"
proof -
  have removal': "I (s'\<lparr>disposed := disposed s' @ callbacks i, lruQueue := q,
               cache := map_delete k (cache s')\<rparr>)"
    if "I s'" "map_get k (cache s') = Some i" for s' k i q
  proof -
    show ?thesis
      unfolding update_lruQueue_cache using queue [OF removal [OF that], of q] .
  qed
  have del: "I (snd (delete Q k s'))" if "I s'" for s' k
  proof (cases "map_get k (cache s')")
    case None
    with that show ?thesis by (simp add: delete_untracked)
  next
    case (Some i)
    with removal' [OF that Some] show ?thesis by (simp add: delete_tracked)
  qed
  have getI: "I (snd (getItem Q k t s'))" if "I s'" for s' k t
  proof (cases "map_get k (cache s')")
    case None
    with queue [OF that] show ?thesis by (simp add: getItem_untracked)
  next
    case (Some i)
    with queue [OF that] removal' [OF that Some] show ?thesis
      by (cases "expireAfterTimestamp i \<le> t") (simp_all add: getItem_live getItem_expired)
  qed
  show ?thesis
  proof (cases c)
    case (CSet key v opts now)
    have step: "I s1" if "I s'" "maximalItemCount s' \<le> Num (real (map_size (cache s')))"
      "evictOne Q s' = (r, s1)" for s' r s1
      using evictOne_cases [OF that(3)] queue [OF that(1)] removal' [OF that(1)] that(1)
      by auto
    have "\<exists>r s1. evictLoop Q s = Some (r, s1) \<and> I s1 \<and>
           maximalItemCount s1 = maximalItemCount s \<and>
           (r = Inr () \<longrightarrow> \<not> maximalItemCount s1 \<le> Num (real (map_size (cache s1))))"
      by (rule evictLoop_rule [where I = I and Q = Q and s = s, OF cap inv]) (rule step)
    then obtain r s1 where
      loop: "evictLoop Q s = Some (r, s1)" "I s1"
        "r = Inr () \<longrightarrow> \<not> maximalItemCount s1 \<le> Num (real (map_size (cache s1)))"
      by blast
    show ?thesis
    proof (cases "ttl_of opts s \<le> Num 0")
      case True
      with CSet weaken [OF inv] show ?thesis by (simp add: set_c_def)
    next
      case False
      show ?thesis
      proof (cases r)
        case (Inl e)
        with CSet False loop(1) weaken [OF loop(2)] show ?thesis by (simp add: set_c_def)
      next
        case (Inr u)
        with loop(3) have room: "\<not> maximalItemCount s1 \<le> Num (real (map_size (cache s1)))"
          by simp
        have "K (s1\<lparr>cache := map_set key (newItem now v opts s) (cache s1)\<rparr>)"
          by (rule insertion [OF CSet loop(2) room]) (simp_all add: newItem_def)
        from queue_post [OF this, of "queue_push Q key (lruQueue s1)"]
        have "K (s1\<lparr>lruQueue := queue_push Q key (lruQueue s1),
                    cache := map_set key (newItem now v opts s) (cache s1)\<rparr>)"
          by (simp add: update_lruQueue_cache)
        with CSet False loop(1) Inr show ?thesis
          by (simp add: set_c_def)
      qed
    qed
  next
    case (CGetItem k t)
    with weaken [OF getI [OF inv]] show ?thesis by simp
  next
    case (CGet k t)
    have "snd (get_c Q k t s) = snd (getItem Q k t s)"
      by (simp add: get_c_def split: prod.splits sum.splits option.splits)
    with CGet weaken [OF getI [OF inv]] show ?thesis by simp
  next
    case (CEvictExpiredItems t)
    have "I (snd (evictExpiredLoop Q t (cache s) s))"
      by (rule evictExpiredLoop_rule [where I = I, OF inv]) (rule removal')
    from weaken [OF this] CEvictExpiredItems show ?thesis by (simp add: evictExpiredItems_def)
  next
    case (CDelete k)
    with weaken [OF del [OF inv]] show ?thesis by simp
  next
    case CClear
    with weaken [OF queue [OF clearing [OF CClear inv]]] show ?thesis by (simp add: clear_def)
  next
    case (CSetTTL k ttl t)
    show ?thesis
    proof (cases "map_get k (cache s)")
      case None
      with CSetTTL weaken [OF inv] show ?thesis by (simp add: setTTL_def)
    next
      case (Some i)
      with CSetTTL weaken [OF retiming [OF inv Some]] show ?thesis by (simp add: setTTL_def)
    qed
  qed (use weaken [OF inv] in simp_all)
qed


lemma map_get_Some_key: "map_get k m = Some v \<Longrightarrow> k \<in> set (map fst m)"
  by (auto simp: map_get_def dest: map_of_SomeD intro: rev_image_eqI)

lemma newCache_Inr:
  assumes "newCache Q args = Inr s0"
  shows "Num 1 \<le> maximalItemCount s0"
    and "maximalItemCount s0 = (case arg_maximalItemCount args of None \<Rightarrow> PosInf | Some n \<Rightarrow> n)"
    and "defaultTTL s0 = (case arg_defaultTTL args of None \<Rightarrow> PosInf | Some t \<Rightarrow> t)"
    and "evictExceedingItemsBy s0 = (case arg_evictExceedingItemsBy args of None \<Rightarrow> Lru | Some c \<Rightarrow> c)"
    and "cache s0 = (case arg_cache args of None \<Rightarrow> [] | Some m \<Rightarrow> m)"
    and "lruQueue s0 = queue_new Q"
    and "disposed s0 = []"
  using assms by (auto simp: newCache_def Let_def not_less split: if_splits)



lemma map_set_fresh: "k \<notin> set (map fst m) \<Longrightarrow> map_set k v m = m @ [(k, v)]"
  by (induction m) auto

lemma map_delete_first:
  "distinct (map fst ((k, i) # r)) \<Longrightarrow> map_delete k ((k, i) # r) = r"
  by (auto simp: map_delete_def filter_id_conv rev_image_eqI)

lemma evictLoop_below:
  "\<not> maximalItemCount s \<le> Num (real (map_size (cache s))) \<Longrightarrow> evictLoop Q s = Some (Inr (), s)"
  by (subst evictLoop.simps) simp

lemma evictLoop_once:
  "maximalItemCount s \<le> Num (real (map_size (cache s))) \<Longrightarrow> evictOne Q s = (Inr (), s1) \<Longrightarrow>
     \<not> maximalItemCount s1 \<le> Num (real (map_size (cache s1))) \<Longrightarrow>
     evictLoop Q s = Some (Inr (), s1)"
  by (subst evictLoop.simps) (simp add: evictLoop_below)

lemma evictLoop_throw:
  "maximalItemCount s \<le> Num (real (map_size (cache s))) \<Longrightarrow> evictOne Q s = (Inl e, s1) \<Longrightarrow>
     evictLoop Q s = Some (Inl e, s1)"
  by (subst evictLoop.simps) simp

lemma evictOne_age:
  "evictExceedingItemsBy s = Age \<Longrightarrow> cache s = (k, i) # r \<Longrightarrow>
     evictOne Q s =
       (Inr (),
        s\<lparr>disposed := disposed s @ callbacks i,
          lruQueue := queue_delete Q k (lruQueue s),
          cache := map_delete k (cache s)\<rparr>)"
  by (simp add: evictOne_def deleteOldestItem_nonempty)

text \<open>A \<open>set\<close> of a new key under the strategy \<open>age\<close>.\<close>

lemma set_c_age_fresh:
  assumes age: "evictExceedingItemsBy s = Age"
    and cap: "maximalItemCount s = Num (real N)" "1 \<le> N" "length (cache s) \<le> N"
    and dist: "distinct (map fst (cache s))"
    and fresh: "k \<notin> set (map fst (cache s))"
    and ttl: "\<not> ttl_of opts s \<le> Num 0"
  shows "\<exists>s1. set_c Q now k v opts s = Some (Inr True, s1) \<and>
           cache s1 = drop (Suc (length (cache s)) - N) (cache s @ [(k, newItem now v opts s)]) \<and>
           disposed s1 = disposed s @
             concat (map (\<lambda>e. callbacks (snd e)) (take (Suc (length (cache s)) - N) (cache s))) \<and>
           evictExceedingItemsBy s1 = Age \<and> maximalItemCount s1 = Num (real N) \<and>
           defaultTTL s1 = defaultTTL s"
proof (cases "length (cache s) < N")
  case True
  then have "evictLoop Q s = Some (Inr (), s)"
    using cap(1) by (simp add: evictLoop_below map_size_def)
  with True ttl fresh age cap show ?thesis
    by (simp add: set_c_def map_set_fresh)
next
  case False
  with cap have full: "length (cache s) = N" by simp
  with cap obtain k0 i0 r where c: "cache s = (k0, i0) # r"
    by (cases "cache s") auto
  let ?s1 = "s\<lparr>disposed := disposed s @ callbacks i0,
          lruQueue := queue_delete Q k0 (lruQueue s),
          cache := map_delete k0 (cache s)\<rparr>"
  have r: "map_delete k0 (cache s) = r"
    using dist c map_delete_first [of k0 i0 r] by simp
  have "evictLoop Q s = Some (Inr (), ?s1)"
  proof (rule evictLoop_once)
    show "maximalItemCount s \<le> Num (real (map_size (cache s)))"
      using cap(1) full by (simp add: map_size_def)
    show "evictOne Q s = (Inr (), ?s1)"
      using evictOne_age [OF age c] .
    show "\<not> maximalItemCount ?s1 \<le> Num (real (map_size (cache ?s1)))"
      using cap(1) full c r by (simp add: map_size_def)
  qed
  moreover have "k \<notin> set (map fst r)"
    using fresh c by simp
  ultimately show ?thesis
    using ttl age cap full c r by (simp add: set_c_def map_set_fresh)
qed

lemma ttl_of_cong: "defaultTTL s1 = defaultTTL s \<Longrightarrow> ttl_of opts s1 = ttl_of opts s"
  by (simp add: ttl_of_def split: option.splits)

lemma newItem_cong: "defaultTTL s1 = defaultTTL s \<Longrightarrow> newItem now v opts s1 = newItem now v opts s"
  by (simp add: newItem_def ttl_of_def split: option.splits)

lemma run_sets_age:
  assumes "evictExceedingItemsBy s = Age"
    and "maximalItemCount s = Num (real N)" and "1 \<le> N" and "length (cache s) \<le> N"
    and "distinct (map fst (cache s) @ map fst es)"
    and "\<forall>e \<in> set es. \<not> ttl_of (fst (snd (snd e))) s \<le> Num 0"
  shows "\<exists>s1. run Q (map (\<lambda>(k, v, opts, now). CSet k v opts now) es) s = Some s1 \<and>
           cache s1 = drop (length (cache s) + length es - N)
             (cache s @ map (\<lambda>(k, v, opts, now). (k, newItem now v opts s)) es) \<and>
           disposed s1 = disposed s @ concat (map (\<lambda>e. callbacks (snd e))
             (take (length (cache s) + length es - N)
               (cache s @ map (\<lambda>(k, v, opts, now). (k, newItem now v opts s)) es)))"
  using assms
proof (induction es arbitrary: s)
  case Nil
  then show ?case by simp
next
  case (Cons e es)
  obtain k v opts now where e: "e = (k, v, opts, now)"
    by (cases e) auto
  let ?items = "\<lambda>s. map (\<lambda>(k, v, opts, now). (k, newItem now v opts s)) es"
  let ?x = "(k, newItem now v opts s)"
  let ?c = "cache s"
  let ?d = "Suc (length ?c) - N"
  have dist: "distinct (map fst ?c)" and fresh: "k \<notin> set (map fst ?c)"
    using Cons.prems(5) e by auto
  have ttl: "\<not> ttl_of opts s \<le> Num 0"
    using Cons.prems(6) e by simp
  from set_c_age_fresh [OF Cons.prems(1-4) dist fresh ttl, of Q now v] obtain s' where
    s': "set_c Q now k v opts s = Some (Inr True, s')"
      "cache s' = drop ?d (?c @ [?x])"
      "disposed s' = disposed s @ concat (map (\<lambda>e. callbacks (snd e)) (take ?d ?c))"
      "evictExceedingItemsBy s' = Age" "maximalItemCount s' = Num (real N)"
      "defaultTTL s' = defaultTTL s"
    by blast
  have len': "length (cache s') \<le> N"
    using s'(2) Cons.prems(3,4) by simp
  have "set (map fst (cache s')) \<subseteq> set (map fst (?c @ [?x]))"
    unfolding s'(2) by (metis drop_map set_drop_subset)
  moreover have "distinct (map fst (cache s'))"
  proof -
    have "distinct (map fst (?c @ [?x]))"
      using dist fresh by simp
    then have "distinct (drop ?d (map fst (?c @ [?x])))"
      by (rule distinct_drop)
    then show ?thesis
      unfolding s'(2) drop_map .
  qed
  ultimately have dist': "distinct (map fst (cache s') @ map fst es)"
    using Cons.prems(5) e by (simp add: disjoint_iff subset_iff) blast
  have ttl': "\<forall>e \<in> set es. \<not> ttl_of (fst (snd (snd e))) s' \<le> Num 0"
    using Cons.prems(6) ttl_of_cong [OF s'(6)] by simp
  from Cons.IH [OF s'(4,5) Cons.prems(3) len' dist' ttl'] obtain s1 where
    s1: "run Q (map (\<lambda>(k, v, opts, now). CSet k v opts now) es) s' = Some s1"
      "cache s1 = drop (length (cache s') + length es - N) (cache s' @ ?items s')"
      "disposed s1 = disposed s' @ concat (map (\<lambda>e. callbacks (snd e))
         (take (length (cache s') + length es - N) (cache s' @ ?items s')))"
    by blast
  have items: "?items s' = ?items s"
    using newItem_cong [OF s'(6)] by simp
  have run: "run Q (map (\<lambda>(k, v, opts, now). CSet k v opts now) (e # es)) s = Some s1"
    using s'(1) s1(1) e by simp
  show ?case
  proof (cases "length ?c < N")
    case True
    then have "?d = 0" by simp
    with s'(2,3) s1(2,3) items run e show ?thesis
      by simp
  next
    case False
    with Cons.prems(3,4) have full: "length ?c = N" "?d = 1" by simp_all
    then obtain y r where c: "?c = y # r"
      using Cons.prems(3) by (cases ?c) auto
    with full s'(2,3) s1(2,3) items run e show ?thesis
      by simp
  qed
qed

lemma length_map_delete_distinct:
  "distinct (map fst m) \<Longrightarrow> k \<in> set (map fst m) \<Longrightarrow> Suc (length (map_delete k m)) = length m"
proof (induction m)
  case Nil
  then show ?case by simp
next
  case (Cons e m)
  show ?case
  proof (cases "fst e = k")
    case True
    with Cons.prems have "k \<notin> set (map fst m)" by auto
    then have "map_delete k m = m"
      by (auto simp: map_delete_def filter_id_conv rev_image_eqI)
    with True show ?thesis by (simp add: map_delete_def)
  next
    case False
    with Cons show ?thesis by (simp add: map_delete_def)
  qed
qed

lemma evictOne_lru_tracked:
  "evictExceedingItemsBy s = Lru \<Longrightarrow> queue_shift Q (lruQueue s) = (Some k, q) \<Longrightarrow>
     map_get k (cache s) = Some i \<Longrightarrow>
     evictOne Q s =
       (Inr (),
        s\<lparr>disposed := disposed s @ callbacks i,
          lruQueue := queue_delete Q k q,
          cache := map_delete k (cache s)\<rparr>)"
  by (simp add: evictOne_def deleteLeastRecentlyUsedItem_tracked)

lemma evictOne_lru_untracked:
  "evictExceedingItemsBy s = Lru \<Longrightarrow> queue_shift Q (lruQueue s) = (Some k, q) \<Longrightarrow>
     map_get k (cache s) = None \<Longrightarrow>
     evictOne Q s = (Inl TypeError, s\<lparr>lruQueue := q\<rparr>)"
  by (simp add: evictOne_def deleteLeastRecentlyUsedItem_untracked)

lemma evictOne_lru_none:
  "evictExceedingItemsBy s = Lru \<Longrightarrow> queue_shift Q (lruQueue s) = (None, q) \<Longrightarrow>
     evictOne Q s = (Inl TypeError, s\<lparr>lruQueue := q\<rparr>)"
  by (simp add: evictOne_def deleteLeastRecentlyUsedItem_none)

text \<open>A \<open>set\<close> at full capacity whose one eviction removes a tracked key.\<close>

lemma set_c_full_evicting:
  assumes full: "maximalItemCount s = Num (real (length (cache s)))"
    and ttl: "\<not> ttl_of opts s \<le> Num 0"
    and ev: "evictOne Q s =
       (Inr (), s\<lparr>disposed := disposed s @ callbacks i, lruQueue := q,
                  cache := map_delete victim (cache s)\<rparr>)"
    and tracked: "map_get victim (cache s) = Some i"
  shows "set_c Q now key v opts s =
     Some (Inr True,
       s\<lparr>disposed := disposed s @ callbacks i,
         lruQueue := queue_push Q key q,
         cache := map_set key (newItem now v opts s) (map_delete victim (cache s))\<rparr>)"
proof -
  let ?s1 = "s\<lparr>disposed := disposed s @ callbacks i, lruQueue := q,
                  cache := map_delete victim (cache s)\<rparr>"
  have "evictLoop Q s = Some (Inr (), ?s1)"
  proof (rule evictLoop_once [OF _ ev])
    show "maximalItemCount s \<le> Num (real (map_size (cache s)))"
      using full by (simp add: map_size_def)
    show "\<not> maximalItemCount ?s1 \<le> Num (real (map_size (cache ?s1)))"
      using full length_map_delete_less [of "cache s" victim i] tracked
      by (simp add: map_size_def map_get_def)
  qed
  with ttl show ?thesis
    by (simp add: set_c_def)
qed

lemma size_after_overwrite:
  assumes "distinct (map fst m)" and "key \<in> set (map fst m)" and "victim \<in> set (map fst m)"
  shows "length (map_set key x (map_delete victim m)) =
           (if victim = key then length m else length m - 1)"
  using length_map_delete_distinct [OF assms(1,3)] assms(2)
  by (auto simp: length_map_set keys_map_delete)

lemma evictExpiredLoop_eq:
  assumes "distinct (map fst es)"
    and "\<forall>e \<in> set es. map_get (fst e) (cache s) = Some (snd e)"
  shows "evictExpiredLoop Q t es s =
     (Inr (),
      s\<lparr>disposed := disposed s @
           concat (map (\<lambda>e. callbacks (snd e)) (filter (\<lambda>e. expireAfterTimestamp (snd e) \<le> t) es)),
        lruQueue := fold (queue_delete Q)
           (map fst (filter (\<lambda>e. expireAfterTimestamp (snd e) \<le> t) es)) (lruQueue s),
        cache := filter
           (\<lambda>e. fst e \<notin> set (map fst (filter (\<lambda>e. expireAfterTimestamp (snd e) \<le> t) es)))
           (cache s)\<rparr>)"
  using assms
proof (induction es arbitrary: s)
  case Nil
  then show ?case by simp
next
  case (Cons e es)
  show ?case
  proof (cases "expireAfterTimestamp (snd e) \<le> t")
    case False
    with Cons show ?thesis by simp
  next
    case True
    let ?s1 = "s\<lparr>disposed := disposed s @ callbacks (snd e),
          lruQueue := queue_delete Q (fst e) (lruQueue s),
          cache := map_delete (fst e) (cache s)\<rparr>"
    have del: "delete Q (fst e) s = (Inr True, ?s1)"
      using Cons.prems(2) by (simp add: delete_tracked)
    have "\<forall>e' \<in> set es. map_get (fst e') (cache ?s1) = Some (snd e')"
      using Cons.prems by (force simp: map_get_def map_of_map_delete)
    with Cons.IH [of ?s1] Cons.prems(1) del True show ?thesis
      by (simp add: map_delete_def conj_commute)
  qed
qed

lemma filter_keys_distinct:
  "distinct (map fst m) \<Longrightarrow>
     filter (\<lambda>e. fst e \<notin> set (map fst (filter P m))) m = filter (\<lambda>e. \<not> P e) m"
proof (rule filter_cong [OF refl])
  fix e
  assume d: "distinct (map fst m)" and e: "e \<in> set m"
  show "(fst e \<notin> set (map fst (filter P m))) = (\<not> P e)"
  proof
    assume "fst e \<notin> set (map fst (filter P m))"
    with e show "\<not> P e" by force
  next
    assume n: "\<not> P e"
    show "fst e \<notin> set (map fst (filter P m))"
    proof
      assume "fst e \<in> set (map fst (filter P m))"
      then obtain e' where e': "e' \<in> set m" "P e'" "fst e' = fst e"
        by auto
      with d e have "e' = e"
        by (metis eq_key_imp_eq_value prod.collapse)
      with e'(2) n show False by simp
    qed
  qed
qed

lemma fold_LRUQueue_delete:
  "fold (queue_delete LRUQueue) ks q = filter (\<lambda>k. k \<notin> set ks) q"
proof (induction ks arbitrary: q)
  case Nil
  then show ?case by simp
next
  case (Cons k ks)
  have "queue_delete LRUQueue k q = filter (\<lambda>x. x \<noteq> k) q"
    by (simp add: LRUQueue_def LRUQueue_delete_def removeAll_filter_not_eq) metis
  with Cons show ?case
    by (simp add: conj_commute)
qed

lemma evictExpiredItems_eq:
  assumes d: "distinct (map fst (cache s))"
  shows "evictExpiredItems Q t s =
     (Inr (),
      s\<lparr>disposed := disposed s @
           concat (map (\<lambda>e. callbacks (snd e))
             (filter (\<lambda>e. expireAfterTimestamp (snd e) \<le> t) (cache s))),
        lruQueue := fold (queue_delete Q)
           (map fst (filter (\<lambda>e. expireAfterTimestamp (snd e) \<le> t) (cache s))) (lruQueue s),
        cache := filter (\<lambda>e. \<not> expireAfterTimestamp (snd e) \<le> t) (cache s)\<rparr>)"
proof -
  have "\<forall>e \<in> set (cache s). map_get (fst e) (cache s) = Some (snd e)"
    using d by (simp add: map_get_def)
  from evictExpiredLoop_eq [OF d this, of Q t] filter_keys_distinct [OF d]
  show ?thesis
    by (simp add: evictExpiredItems_def)
qed

lemma LRUQueue_simps:
  "queue_new LRUQueue = []"
  "queue_push LRUQueue k q = q @ [k]"
  "queue_touch LRUQueue k q = (if k \<in> set q then removeAll k q @ [k] else q)"
  "queue_shift LRUQueue q = (case q of [] \<Rightarrow> (None, []) | k # r \<Rightarrow> (Some k, r))"
  "queue_delete LRUQueue k q = removeAll k q"
  "queue_clear LRUQueue q = []"
  by (simp_all add: LRUQueue_def LRUQueue_push_def LRUQueue_touch_def LRUQueue_shift_def
      LRUQueue_delete_def LRUQueue_clear_def)


















lemma tokens_filter:
  "mset (concat (map (\<lambda>e. callbacks (snd e)) (filter P m))) \<subseteq>#
     mset (concat (map (\<lambda>e. callbacks (snd e)) m))"
  by (induction m) (auto intro: subset_mset.add_increasing)

lemma tokens_map_delete:
  "map_of m k = Some i \<Longrightarrow>
     mset (callbacks i) + mset (concat (map (\<lambda>e. callbacks (snd e)) (map_delete k m))) \<subseteq>#
       mset (concat (map (\<lambda>e. callbacks (snd e)) m))"
proof (induction m)
  case Nil
  then show ?case by simp
next
  case (Cons e m)
  show ?case
  proof (cases "fst e = k")
    case True
    with Cons.prems have "snd e = i"
      by (cases e) simp
    with True tokens_filter [of "\<lambda>e. fst e \<noteq> k" m] show ?thesis
      by (simp add: map_delete_def)
  next
    case False
    with Cons.prems have "map_of m k = Some i"
      by (cases e) simp
    from Cons.IH [OF this] False show ?thesis
      by (simp add: map_delete_def add.left_commute)
  qed
qed

lemma tokens_map_set:
  "mset (concat (map (\<lambda>e. callbacks (snd e)) (map_set k i m))) \<subseteq>#
     mset (concat (map (\<lambda>e. callbacks (snd e)) m)) + mset (callbacks i)"
proof (induction m)
  case Nil
  then show ?case by simp
next
  case (Cons e m)
  obtain k' i' where e: "e = (k', i')" by (cases e)
  show ?case
  proof (cases "k' = k")
    case True
    with e show ?thesis
      by (simp add: add.commute subset_mset.add_increasing2)
  next
    case False
    with e Cons.IH show ?thesis
      by (simp add: add.assoc)
  qed
qed

lemma tokens_retime:
  "map_of m k = Some i \<Longrightarrow>
     mset (concat (map (\<lambda>e. callbacks (snd e)) (map_set k (i\<lparr>expireAfterTimestamp := x\<rparr>) m))) =
       mset (concat (map (\<lambda>e. callbacks (snd e)) m))"
proof (induction m)
  case Nil
  then show ?case by simp
next
  case (Cons e m)
  obtain k' i' where e: "e = (k', i')" by (cases e)
  with Cons show ?case
    by (cases "k' = k") (auto simp: callbacks_def)
qed

text \<open>One call: every callback, called or pending, was there before or comes with the call.\<close>

lemma exec_tokens:
  assumes cap: "Num 1 \<le> maximalItemCount s"
  shows "\<exists>s1. exec Q c s = Some s1 \<and>
           (Num 1 \<le> maximalItemCount s1 \<and>
            mset (disposed s1 @ pending s1) \<subseteq># mset (disposed s @ pending s) + mset (registered c))"
proof (rule exec_rule_post [where
      I = "\<lambda>s'. Num 1 \<le> maximalItemCount s' \<and>
              mset (disposed s' @ pending s') \<subseteq># mset (disposed s @ pending s)"])
  show "Num 1 \<le> maximalItemCount s"
    by (rule cap)
  show "Num 1 \<le> maximalItemCount s \<and> mset (disposed s @ pending s) \<subseteq># mset (disposed s @ pending s)"
    using cap by simp
next
  fix s' :: "('a, 'b, 'c, 'd) Cache" and k i
  assume I: "Num 1 \<le> maximalItemCount s' \<and>
              mset (disposed s' @ pending s') \<subseteq># mset (disposed s @ pending s)"
    and tracked: "map_get k (cache s') = Some i"
  let ?s1 = "s'\<lparr>disposed := disposed s' @ callbacks i, cache := map_delete k (cache s')\<rparr>"
  have "mset (disposed ?s1 @ pending ?s1) \<subseteq># mset (disposed s' @ pending s')"
    using tokens_map_delete [of "cache s'" k i] tracked
    by (simp add: pending_def map_get_def add.assoc)
  moreover have "mset (disposed s' @ pending s') \<subseteq># mset (disposed s @ pending s)"
    using I by simp
  ultimately have "mset (disposed ?s1 @ pending ?s1) \<subseteq># mset (disposed s @ pending s)"
    by (rule subset_mset.order_trans)
  moreover have "Num 1 \<le> maximalItemCount ?s1"
    using I by simp
  ultimately show "Num 1 \<le> maximalItemCount ?s1 \<and>
              mset (disposed ?s1 @ pending ?s1) \<subseteq># mset (disposed s @ pending s)"
    by (rule conjI [rotated])
next
  fix s' :: "('a, 'b, 'c, 'd) Cache" and k v opts now and i :: "('b, 'c) item"
  assume c: "c = CSet k v opts now"
    and I: "Num 1 \<le> maximalItemCount s' \<and>
              mset (disposed s' @ pending s') \<subseteq># mset (disposed s @ pending s)"
    and i: "item_dispose i = opt_dispose opts"
  let ?s1 = "s'\<lparr>cache := map_set k i (cache s')\<rparr>"
  have "callbacks i = registered c"
    using c i by (simp add: callbacks_def)
  then have "mset (disposed ?s1 @ pending ?s1) \<subseteq># mset (disposed s' @ pending s') + mset (registered c)"
    using tokens_map_set [of k i "cache s'"] by (simp add: pending_def add.assoc)
  moreover have "mset (disposed s' @ pending s') + mset (registered c) \<subseteq>#
      mset (disposed s @ pending s) + mset (registered c)"
    using I by (simp del: mset_append)
  ultimately have "mset (disposed ?s1 @ pending ?s1) \<subseteq>#
      mset (disposed s @ pending s) + mset (registered c)"
    by (rule subset_mset.order_trans)
  moreover have "Num 1 \<le> maximalItemCount ?s1"
    using I by simp
  ultimately show "Num 1 \<le> maximalItemCount ?s1 \<and>
              mset (disposed ?s1 @ pending ?s1) \<subseteq># mset (disposed s @ pending s) + mset (registered c)"
    by (rule conjI [rotated])
next
  fix s' :: "('a, 'b, 'c, 'd) Cache" and k i e
  assume I: "Num 1 \<le> maximalItemCount s' \<and>
              mset (disposed s' @ pending s') \<subseteq># mset (disposed s @ pending s)"
    and tracked: "map_get k (cache s') = Some i"
  then show "Num 1 \<le> maximalItemCount (s'\<lparr>cache := map_set k (i\<lparr>expireAfterTimestamp := e\<rparr>) (cache s')\<rparr>) \<and>
              mset (disposed (s'\<lparr>cache := map_set k (i\<lparr>expireAfterTimestamp := e\<rparr>) (cache s')\<rparr>) @
                    pending (s'\<lparr>cache := map_set k (i\<lparr>expireAfterTimestamp := e\<rparr>) (cache s')\<rparr>))
                \<subseteq># mset (disposed s @ pending s)"
    using tokens_retime [of "cache s'" k i e] by (simp add: pending_def map_get_def)
next
  fix s' :: "('a, 'b, 'c, 'd) Cache"
  assume "Num 1 \<le> maximalItemCount s' \<and>
              mset (disposed s' @ pending s') \<subseteq># mset (disposed s @ pending s)"
  then show "Num 1 \<le> maximalItemCount (s'\<lparr>cache := []\<rparr>) \<and>
              mset (disposed (s'\<lparr>cache := []\<rparr>) @ pending (s'\<lparr>cache := []\<rparr>))
                \<subseteq># mset (disposed s @ pending s)"
    by (auto simp: pending_def intro: subset_mset.order_trans [rotated])
qed (auto simp: pending_def intro: subset_mset.add_increasing2)

lemma distinct_mset_subseteq:
  assumes "mset xs \<subseteq># mset ys" and "distinct ys"
  shows "distinct xs"
proof -
  have le: "count (mset xs) a \<le> 1" for a
  proof -
    have "count (mset xs) a \<le> count (mset ys) a"
      using assms(1) by (rule mset_subset_eq_count)
    also have "\<dots> \<le> 1"
      using assms(2) by (simp add: distinct_count_atmost_1)
    finally show ?thesis .
  qed
  show ?thesis
    unfolding distinct_count_atmost_1
  proof
    fix a
    show "count (mset xs) a = (if a \<in> set xs then 1 else 0)"
      using le [of a] by (cases "a \<in> set xs") (auto simp: count_mset_0_iff le_Suc_eq)
  qed
qed

lemma run_tokens:
  assumes "Num 1 \<le> maximalItemCount s"
  shows "\<exists>s1. run Q calls s = Some s1 \<and>
           mset (disposed s1 @ pending s1) \<subseteq>#
             mset (disposed s @ pending s) + mset (concat (map registered calls))"
  using assms
proof (induction calls arbitrary: s)
  case Nil
  then show ?case by simp
next
  case (Cons c calls)
  from exec_tokens [OF Cons.prems, of Q c] obtain s1 where
    s1: "exec Q c s = Some s1" "Num 1 \<le> maximalItemCount s1"
      "mset (disposed s1 @ pending s1) \<subseteq># mset (disposed s @ pending s) + mset (registered c)"
    by blast
  from Cons.IH [OF s1(2)] obtain s2 where
    s2: "run Q calls s1 = Some s2"
      "mset (disposed s2 @ pending s2) \<subseteq>#
         mset (disposed s1 @ pending s1) + mset (concat (map registered calls))"
    by blast
  have "mset (disposed s1 @ pending s1) + mset (concat (map registered calls)) \<subseteq>#
          (mset (disposed s @ pending s) + mset (registered c)) + mset (concat (map registered calls))"
    using s1(3) by (rule subset_mset.add_right_mono)
  with s2(2) have "mset (disposed s2 @ pending s2) \<subseteq>#
          (mset (disposed s @ pending s) + mset (registered c)) + mset (concat (map registered calls))"
    by (rule subset_mset.order_trans)
  with s1(1) s2(1) show ?case
    by (simp add: add.assoc)
qed

text \<open>A \<open>set\<close> with a positive TTL on a store that is exactly full.\<close>

lemma set_c_full:
  assumes full: "maximalItemCount s = Num (real (size_c s))"
    and nonempty: "0 < size_c s"
    and ttl: "Num 0 < ttl_of opts s"
  shows "(\<exists>q. set_c Q now key v opts s = Some (Inl TypeError, s\<lparr>lruQueue := q\<rparr>)) \<or>
         (\<exists>victim i s1. peekItem victim s = Some i \<and>
            set_c Q now key v opts s = Some (Inr True, s1) \<and>
            disposed s1 = disposed s @ callbacks i \<and>
            cache s1 = map_set key (newItem now v opts s) (map_delete victim (cache s)))"
proof -
  have full': "maximalItemCount s = Num (real (length (cache s)))"
    using full by (simp add: size_c_def map_size_def)
  have over: "maximalItemCount s \<le> Num (real (map_size (cache s)))"
    using full' by (simp add: map_size_def)
  have ttl': "\<not> ttl_of opts s \<le> Num 0"
    using ttl by (simp add: not_le)
  obtain r s2 where ev: "evictOne Q s = (r, s2)"
    by (cases "evictOne Q s")
  from evictOne_cases [OF ev] consider
    (thrown) q where "r = Inl TypeError" "s2 = s\<lparr>lruQueue := q\<rparr>"
    | (idle) "cache s = []"
    | (evicted) k i q where "r = Inr ()" "map_get k (cache s) = Some i"
        "s2 = s\<lparr>disposed := disposed s @ callbacks i, lruQueue := q,
               cache := map_delete k (cache s)\<rparr>"
    by blast
  then show ?thesis
  proof cases
    case thrown
    with evictLoop_throw [OF over, of Q TypeError s2] ev ttl'
    have "set_c Q now key v opts s = Some (Inl TypeError, s\<lparr>lruQueue := q\<rparr>)"
      by (simp add: set_c_def)
    then show ?thesis
      by blast
  next
    case idle
    with nonempty show ?thesis
      by (simp add: size_c_def map_size_def)
  next
    case evicted
    from set_c_full_evicting [OF full' ttl' ev [unfolded evicted(1,3)] evicted(2),
        where now = now and key = key and v = v] evicted(2)
    show ?thesis
      by (auto simp: peekItem_def)
  qed
qed

section \<open>The claims\<close>

text \<open>
  C7 (absence on delete): \<open>delete\<close> on a key the store does not track does not report
  "not found": \<open>dispose\<close> reads a field of the \<open>undefined\<close> item and the call throws a
  TypeError. Evaluated on a freshly constructed cache and the key \<open>x\<close>; the state is
  left as it was.
\<close>

theorem delete_untracked_key_throws:
  "newCache LRUQueue
     \<lparr> arg_defaultTTL = None, arg_maximalItemCount = None, arg_cache = None,
       arg_evictExceedingItemsBy = None \<rparr> =
     Inr (\<lparr> defaultTTL = PosInf, maximalItemCount = PosInf, evictExceedingItemsBy = Lru,
            cache = [], lruQueue = [], disposed = [] \<rparr>
          :: (string, string, nat, string list) Cache) \<and>
   delete LRUQueue ''x''
     (\<lparr> defaultTTL = PosInf, maximalItemCount = PosInf, evictExceedingItemsBy = Lru,
        cache = [], lruQueue = [], disposed = [] \<rparr>
      :: (string, string, nat, string list) Cache) =
     (Inl TypeError,
      \<lparr> defaultTTL = PosInf, maximalItemCount = PosInf, evictExceedingItemsBy = Lru,
        cache = [], lruQueue = [], disposed = [] \<rparr>)"
  by (simp add: newCache_def LRUQueue_def delete_def dispose_def peekItem_def map_get_def)

text \<open>
  C8 (setTTL contract): on a tracked key, \<open>setTTL key ttl t\<close> returns \<open>t + ttl\<close> and
  leaves the item with exactly that expiry, whatever it was before; its other
  fields, every other item, the insertion order, the queue and the dispose log stay
  as they were. On an untracked key the call fails with a TypeError and the state is
  unchanged.
\<close>

theorem setTTL_contract:
  "(\<forall>i. peekItem key s = Some i \<longrightarrow>
      (let s1 = snd (setTTL key ttl t s)
       in fst (setTTL key ttl t s) = Inr (t + ttl) \<and>
          peekItem key s1 = Some (i\<lparr>expireAfterTimestamp := t + ttl\<rparr>) \<and>
          (\<forall>k. k \<noteq> key \<longrightarrow> peekItem k s1 = peekItem k s) \<and>
          map fst (cache s1) = map fst (cache s) \<and>
          s1\<lparr>cache := cache s\<rparr> = s)) \<and>
   (peekItem key s = None \<longrightarrow> setTTL key ttl t s = (Inl TypeError, s))"
proof (intro conjI allI impI)
  fix i
  assume tracked: "peekItem key s = Some i"
  then have "key \<in> set (map fst (cache s))"
    using map_has_iff [of key "cache s"] by (simp add: peekItem_def map_get_def map_has_def)
  with tracked show "let s1 = snd (setTTL key ttl t s)
       in fst (setTTL key ttl t s) = Inr (t + ttl) \<and>
          peekItem key s1 = Some (i\<lparr>expireAfterTimestamp := t + ttl\<rparr>) \<and>
          (\<forall>k. k \<noteq> key \<longrightarrow> peekItem k s1 = peekItem k s) \<and>
          map fst (cache s1) = map fst (cache s) \<and>
          s1\<lparr>cache := cache s\<rparr> = s"
    by (simp add: setTTL_def peekItem_def map_get_def map_of_map_set keys_map_set)
next
  assume "peekItem key s = None"
  then show "setTTL key ttl t s = (Inl TypeError, s)"
    by (simp add: setTTL_def peekItem_def)
qed

text \<open>
  The test "changes the TTL of an existing item": \<open>set('a', 'x')\<close> at time 7 with a
  default TTL of 5000 (expiry 5007), then \<open>setTTL('a', 100, 100)\<close> gives expiry 200;
  \<open>setTTL('b', 100, 100)\<close> throws.
\<close>

theorem setTTL_contract_witness:
  "(let s = \<lparr> defaultTTL = Num 5000, maximalItemCount = Num 4, evictExceedingItemsBy = Lru,
              cache = [(''a'', \<lparr> item_value = ''x'', expireAfterTimestamp = Num 5007,
                                 storageTimestamp = Num 7, item_dispose = None :: nat option \<rparr>)],
              lruQueue = [''a''], disposed = [] \<rparr>
    in fst (setTTL ''a'' (Num 100) (Num 100) s) = Inr (Num 200) \<and>
       peekItem ''a'' (snd (setTTL ''a'' (Num 100) (Num 100) s)) =
         Some \<lparr> item_value = ''x'', expireAfterTimestamp = Num 200,
                storageTimestamp = Num 7, item_dispose = None \<rparr> \<and>
       setTTL ''b'' (Num 100) (Num 100) s = (Inl TypeError, s))"
  using setTTL_contract [of "''a''"
      "\<lparr> defaultTTL = Num 5000, maximalItemCount = Num 4, evictExceedingItemsBy = Lru,
              cache = [(''a'', \<lparr> item_value = ''x'', expireAfterTimestamp = Num 5007,
                                 storageTimestamp = Num 7, item_dispose = None :: nat option \<rparr>)],
              lruQueue = [''a''], disposed = [] \<rparr>" "Num 100" "Num 100"]
    setTTL_contract [of "''b''"
      "\<lparr> defaultTTL = Num 5000, maximalItemCount = Num 4, evictExceedingItemsBy = Lru,
              cache = [(''a'', \<lparr> item_value = ''x'', expireAfterTimestamp = Num 5007,
                                 storageTimestamp = Num 7, item_dispose = None :: nat option \<rparr>)],
              lruQueue = [''a''], disposed = [] \<rparr>" "Num 100" "Num 100"]
  by (simp add: peekItem_def map_get_def Let_def)

text \<open>
  C4 (TTL lazy expiry): when \<open>set\<close> has stored an item, it is \<open>newItem\<close>: its expiry
  is the storage timestamp plus the TTL (never, for an unbounded TTL). \<open>get\<close> before the expiry
  returns the value and only touches the queue; \<open>get\<close> at or after the expiry
  deletes the item, calls its dispose callback, and returns \<open>undefined\<close>; \<open>peek\<close>
  takes no timestamp, changes nothing and returns the value as long as the item is
  stored. This holds for every queue implementation \<open>Q\<close>.
\<close>

theorem ttl_lazy_expiry:
  assumes "set_c Q now key v opts s = Some (Inr True, s1)"
  shows "peekItem key s1 = Some (newItem now v opts s) \<and>
         peek key s1 = Some v \<and>
         (\<forall>t. t < expireAfterTimestamp (newItem now v opts s) \<longrightarrow>
              get_c Q key t s1 =
                (Inr (Some v), s1\<lparr>lruQueue := queue_touch Q key (lruQueue s1)\<rparr>)) \<and>
         (\<forall>t. expireAfterTimestamp (newItem now v opts s) \<le> t \<longrightarrow>
              get_c Q key t s1 =
                (Inr None,
                 s1\<lparr>disposed := disposed s1 @ callbacks (newItem now v opts s),
                    lruQueue := queue_delete Q key (lruQueue s1),
                    cache := map_delete key (cache s1)\<rparr>) \<and>
              peek key (snd (get_c Q key t s1)) = None)"
proof -
  let ?i = "newItem now v opts s"
  from set_c_returns_true [OF assms] obtain s' where
    s1: "s1 = s'\<lparr>lruQueue := queue_push Q key (lruQueue s'), cache := map_set key ?i (cache s')\<rparr>"
    by blast
  have v: "item_value ?i = v"
    by (simp add: newItem_def)
  have tracked: "map_get key (cache s1) = Some ?i"
    by (simp add: s1 map_get_def map_of_map_set)
  have live: "get_c Q key t s1 = (Inr (Some v), s1\<lparr>lruQueue := queue_touch Q key (lruQueue s1)\<rparr>)"
    if "t < expireAfterTimestamp ?i" for t
    using that getItem_live [OF tracked, of t Q] v by (simp add: get_c_def not_le)
  have dead: "get_c Q key t s1 =
                  (Inr None,
                   s1\<lparr>disposed := disposed s1 @ callbacks ?i,
                      lruQueue := queue_delete Q key (lruQueue s1),
                      cache := map_delete key (cache s1)\<rparr>)"
    if "expireAfterTimestamp ?i \<le> t" for t
    using that getItem_expired [OF tracked, of t Q] by (simp add: get_c_def)
  have gone: "peek key (snd (get_c Q key t s1)) = None" if "expireAfterTimestamp ?i \<le> t" for t
    using dead [OF that] by (simp add: peek_def peekItem_def map_get_def map_of_map_delete)
  have "peek key s1 = Some v"
    using tracked v by (simp add: peek_def peekItem_def)
  with tracked live dead gone show ?thesis
    unfolding peekItem_def by blast
qed

text \<open>
  The test's numbers: default TTL 5000, \<open>set('x', 'y', {dispose})\<close> at time 10000
  gives expiry 15000; \<open>get\<close> at 14999 returns \<open>y\<close>, \<open>get\<close> at 15000 disposes and
  returns \<open>undefined\<close>, \<open>peek\<close> still returns \<open>y\<close> on the state before that \<open>get\<close>.
\<close>

theorem ttl_lazy_expiry_witness:
  "set_c LRUQueue (Num 10000) ''x'' ''y''
     \<lparr> opt_ttl = None, opt_storageTimestamp = None, opt_dispose = Some (1::nat) \<rparr>
     \<lparr> defaultTTL = Num 5000, maximalItemCount = Num 4, evictExceedingItemsBy = Lru,
       cache = [], lruQueue = [], disposed = [] \<rparr> =
     Some (Inr True,
       \<lparr> defaultTTL = Num 5000, maximalItemCount = Num 4, evictExceedingItemsBy = Lru,
         cache = [(''x'', \<lparr> item_value = ''y'', expireAfterTimestamp = Num 15000,
                            storageTimestamp = Num 10000, item_dispose = Some 1 \<rparr>)],
         lruQueue = [''x''], disposed = [] \<rparr>) \<and>
   get_c LRUQueue ''x'' (Num 14999)
     \<lparr> defaultTTL = Num 5000, maximalItemCount = Num 4, evictExceedingItemsBy = Lru,
       cache = [(''x'', \<lparr> item_value = ''y'', expireAfterTimestamp = Num 15000,
                          storageTimestamp = Num 10000, item_dispose = Some (1::nat) \<rparr>)],
       lruQueue = [''x''], disposed = [] \<rparr> =
     (Inr (Some ''y''),
       \<lparr> defaultTTL = Num 5000, maximalItemCount = Num 4, evictExceedingItemsBy = Lru,
         cache = [(''x'', \<lparr> item_value = ''y'', expireAfterTimestamp = Num 15000,
                            storageTimestamp = Num 10000, item_dispose = Some 1 \<rparr>)],
         lruQueue = [''x''], disposed = [] \<rparr>) \<and>
   get_c LRUQueue ''x'' (Num 15000)
     \<lparr> defaultTTL = Num 5000, maximalItemCount = Num 4, evictExceedingItemsBy = Lru,
       cache = [(''x'', \<lparr> item_value = ''y'', expireAfterTimestamp = Num 15000,
                          storageTimestamp = Num 10000, item_dispose = Some (1::nat) \<rparr>)],
       lruQueue = [''x''], disposed = [] \<rparr> =
     (Inr None,
       \<lparr> defaultTTL = Num 5000, maximalItemCount = Num 4, evictExceedingItemsBy = Lru,
         cache = [], lruQueue = [], disposed = [1] \<rparr>) \<and>
   peek ''x''
     \<lparr> defaultTTL = Num 5000, maximalItemCount = Num 4, evictExceedingItemsBy = Lru,
       cache = [(''x'', \<lparr> item_value = ''y'', expireAfterTimestamp = Num 15000,
                          storageTimestamp = Num 10000, item_dispose = Some (1::nat) \<rparr>)],
       lruQueue = [''x''], disposed = [] \<rparr> = Some ''y''"
proof -
  have stored:
    "set_c LRUQueue (Num 10000) ''x'' ''y''
       \<lparr> opt_ttl = None, opt_storageTimestamp = None, opt_dispose = Some (1::nat) \<rparr>
       \<lparr> defaultTTL = Num 5000, maximalItemCount = Num 4, evictExceedingItemsBy = Lru,
         cache = [], lruQueue = [], disposed = [] \<rparr> =
       Some (Inr True,
         \<lparr> defaultTTL = Num 5000, maximalItemCount = Num 4, evictExceedingItemsBy = Lru,
           cache = [(''x'', \<lparr> item_value = ''y'', expireAfterTimestamp = Num 15000,
                              storageTimestamp = Num 10000, item_dispose = Some 1 \<rparr>)],
           lruQueue = [''x''], disposed = [] \<rparr>)"
    by (simp add: set_c_def ttl_of_def storageTimestamp_of_def newItem_def evictLoop.simps
        map_size_def LRUQueue_def LRUQueue_push_def)
  show ?thesis
    using stored ttl_lazy_expiry [OF stored]
    by (simp add: peekItem_def map_get_def map_delete_def LRUQueue_def LRUQueue_touch_def
        LRUQueue_delete_def ttl_of_def storageTimestamp_of_def newItem_def callbacks_def)
qed




text \<open>
  C3 (age policy): a cache constructed with the strategy \<open>age\<close>, capacity \<open>N\<close> and an
  empty store receives \<open>N + 1\<close> \<open>set\<close> calls with distinct keys and positive TTLs,
  and nothing else. Every call returns; afterwards \<open>peek\<close> of the first key is
  \<open>undefined\<close>, \<open>peek\<close> of each later key gives its value, the store holds the
  later keys in insertion order, and the only callback called is the first item's.
  The victim is fixed by insertion order alone: under \<open>age\<close> one pass of the loop
  removes the first key of the store whatever state the queue is in, so what reads
  did to the recency order has no influence. This holds for every queue
  implementation \<open>Q\<close>.
\<close>

theorem age_policy:
  fixes Q :: "('k, 'q) queue_ops" and s0 :: "('k, 'v, 'd, 'q) Cache"
  assumes "newCache Q args = Inr s0"
    and "arg_cache args = None"
    and "arg_evictExceedingItemsBy args = Some Age"
    and "arg_maximalItemCount args = Some (Num (real N))"
    and "length es = N + 1"
    and "distinct (map fst es)"
    and "\<forall>e \<in> set es. Num 0 < ttl_of (fst (snd (snd e))) s0"
  shows "(\<exists>s. run Q (map (\<lambda>(k, v, opts, now). CSet k v opts now) es) s0 = Some s \<and>
            peek (fst (es ! 0)) s = None \<and>
            (\<forall>i \<in> {1..N}. peek (fst (es ! i)) s = Some (fst (snd (es ! i)))) \<and>
            map fst (cache s) = tl (map fst es) \<and>
            disposed s = (case hd es of (k, v, opts, now) \<Rightarrow> callbacks (newItem now v opts s0))) \<and>
         (\<forall>(s' :: ('k, 'v, 'd, 'q) Cache) q. evictExceedingItemsBy s' = Age \<longrightarrow> cache s' \<noteq> [] \<longrightarrow>
            cache (snd (evictOne Q (s'\<lparr>lruQueue := q\<rparr>))) =
              map_delete (fst (hd (cache s'))) (cache s'))"
proof (rule conjI)
  let ?items = "map (\<lambda>(k, v, opts, now). (k, newItem now v opts s0)) es"
  have s0: "evictExceedingItemsBy s0 = Age" "maximalItemCount s0 = Num (real N)" "1 \<le> N"
    "cache s0 = []" "disposed s0 = []"
    using newCache_Inr [OF assms(1)] assms(2-4) by simp_all
  have ttl: "\<forall>e \<in> set es. \<not> ttl_of (fst (snd (snd e))) s0 \<le> Num 0"
    using assms(7) by (simp add: not_le)
  from run_sets_age [OF s0(1-3), of es Q] s0(4,5) assms(5,6) ttl obtain s where
    s: "run Q (map (\<lambda>(k, v, opts, now). CSet k v opts now) es) s0 = Some s"
      "cache s = drop 1 ?items"
      "disposed s = concat (map (\<lambda>e. callbacks (snd e)) (take 1 ?items))"
    by auto
  obtain e0 r where es: "es = e0 # r"
    using assms(5) by (cases es) auto
  have keys: "map fst ?items = map fst es"
    by (induction es) auto
  have c: "cache s = map (\<lambda>(k, v, opts, now). (k, newItem now v opts s0)) r"
    using s(2) es by simp
  have dist: "distinct (map fst (cache s))" and first: "fst e0 \<notin> set (map fst (cache s))"
    and keys': "map fst (cache s) = map fst r"
    using assms(6) keys c es by (auto simp: case_prod_beta comp_def)
  have "map_of (cache s) (fst e0) = None"
    using first by (simp add: map_of_eq_None_iff)
  then have "peek (fst (es ! 0)) s = None"
    using es by (simp add: peek_def peekItem_def map_get_def)
  moreover have "peek (fst (es ! i)) s = Some (fst (snd (es ! i)))" if "i \<in> {1..N}" for i
  proof -
    from that assms(5) es obtain j where j: "i = Suc j" "j < length r"
      by (cases i) auto
    obtain k v opts now where rj: "r ! j = (k, v, opts, now)"
      by (cases "r ! j") auto
    have "(k, newItem now v opts s0) \<in> set (cache s)"
      using j(2) rj unfolding c by (force simp: in_set_conv_nth)
    then have "map_of (cache s) k = Some (newItem now v opts s0)"
      using dist by simp
    then show ?thesis
      using j es rj by (simp add: peek_def peekItem_def map_get_def newItem_def)
  qed
  moreover have "map fst (cache s) = tl (map fst es)"
    using keys' es by simp
  moreover have "disposed s = (case hd es of (k, v, opts, now) \<Rightarrow> callbacks (newItem now v opts s0))"
    using s(3) es by (simp add: case_prod_beta)
  ultimately show "\<exists>s. run Q (map (\<lambda>(k, v, opts, now). CSet k v opts now) es) s0 = Some s \<and>
            peek (fst (es ! 0)) s = None \<and>
            (\<forall>i \<in> {1..N}. peek (fst (es ! i)) s = Some (fst (snd (es ! i)))) \<and>
            map fst (cache s) = tl (map fst es) \<and>
            disposed s = (case hd es of (k, v, opts, now) \<Rightarrow> callbacks (newItem now v opts s0))"
    using s(1) by blast
next
  show "\<forall>(s' :: ('k, 'v, 'd, 'q) Cache) q. evictExceedingItemsBy s' = Age \<longrightarrow> cache s' \<noteq> [] \<longrightarrow>
            cache (snd (evictOne Q (s'\<lparr>lruQueue := q\<rparr>))) =
              map_delete (fst (hd (cache s'))) (cache s')"
  proof (intro allI impI)
    fix s' :: "('k, 'v, 'd, 'q) Cache" and q :: 'q
    assume age: "evictExceedingItemsBy s' = Age" and "cache s' \<noteq> []"
    then obtain k i r where "cache s' = (k, i) # r"
      by (cases "cache s'") auto
    with age evictOne_age [of "s'\<lparr>lruQueue := q\<rparr>" k i r Q]
    show "cache (snd (evictOne Q (s'\<lparr>lruQueue := q\<rparr>))) =
              map_delete (fst (hd (cache s'))) (cache s')"
      by simp
  qed
qed

text \<open>Capacity 2 and the keys \<open>k1\<close>, \<open>k2\<close>, \<open>k3\<close>: \<open>k1\<close> is evicted and disposed.\<close>

theorem age_policy_witness:
  "newCache LRUQueue
     \<lparr> arg_defaultTTL = None, arg_maximalItemCount = Some (Num 2), arg_cache = None,
       arg_evictExceedingItemsBy = Some Age \<rparr> =
     Inr (\<lparr> defaultTTL = PosInf, maximalItemCount = Num 2, evictExceedingItemsBy = Age,
            cache = [], lruQueue = [], disposed = [] \<rparr>
          :: (string, string, nat, string list) Cache) \<and>
   (\<exists>s. run LRUQueue
          [CSet ''k1'' ''x'' \<lparr> opt_ttl = None, opt_storageTimestamp = None, opt_dispose = Some 1 \<rparr> (Num 1),
           CSet ''k2'' ''y'' \<lparr> opt_ttl = None, opt_storageTimestamp = None, opt_dispose = Some 2 \<rparr> (Num 2),
           CSet ''k3'' ''z'' \<lparr> opt_ttl = None, opt_storageTimestamp = None, opt_dispose = Some 3 \<rparr> (Num 3)]
          (\<lparr> defaultTTL = PosInf, maximalItemCount = Num 2, evictExceedingItemsBy = Age,
             cache = [], lruQueue = [], disposed = [] \<rparr>
           :: (string, string, nat, string list) Cache) = Some s \<and>
        peek ''k1'' s = None \<and> peek ''k2'' s = Some ''y'' \<and> peek ''k3'' s = Some ''z'' \<and>
        map fst (cache s) = [''k2'', ''k3''] \<and> disposed s = [1])"
proof -
  let ?es = "[(''k1'', ''x'', \<lparr> opt_ttl = None, opt_storageTimestamp = None, opt_dispose = Some (1::nat) \<rparr>, Num 1),
              (''k2'', ''y'', \<lparr> opt_ttl = None, opt_storageTimestamp = None, opt_dispose = Some 2 \<rparr>, Num 2),
              (''k3'', ''z'', \<lparr> opt_ttl = None, opt_storageTimestamp = None, opt_dispose = Some 3 \<rparr>, Num 3)]"
  have made:
    "newCache LRUQueue
       \<lparr> arg_defaultTTL = None, arg_maximalItemCount = Some (Num 2), arg_cache = None,
         arg_evictExceedingItemsBy = Some Age \<rparr> =
       Inr (\<lparr> defaultTTL = PosInf, maximalItemCount = Num 2, evictExceedingItemsBy = Age,
              cache = [], lruQueue = [], disposed = [] \<rparr>
            :: (string, string, nat, string list) Cache)"
    by (simp add: newCache_def LRUQueue_def)
  have "(\<exists>s. run LRUQueue (map (\<lambda>(k, v, opts, now). CSet k v opts now) ?es)
          (\<lparr> defaultTTL = PosInf, maximalItemCount = Num 2, evictExceedingItemsBy = Age,
             cache = [], lruQueue = [], disposed = [] \<rparr>
           :: (string, string, nat, string list) Cache) = Some s \<and>
            peek (fst (?es ! 0)) s = None \<and>
            (\<forall>i \<in> {1..2}. peek (fst (?es ! i)) s = Some (fst (snd (?es ! i)))) \<and>
            map fst (cache s) = tl (map fst ?es) \<and>
            disposed s = (case hd ?es of (k, v, opts, now) \<Rightarrow> callbacks (newItem now v opts
              (\<lparr> defaultTTL = PosInf, maximalItemCount = Num 2, evictExceedingItemsBy = Age,
             cache = [], lruQueue = [], disposed = [] \<rparr>
           :: (string, string, nat, string list) Cache))))"
    using age_policy [OF made, of 2 ?es, THEN conjunct1]
    by (simp add: ttl_of_def)
  then obtain s where s: "run LRUQueue (map (\<lambda>(k, v, opts, now). CSet k v opts now) ?es)
          (\<lparr> defaultTTL = PosInf, maximalItemCount = Num 2, evictExceedingItemsBy = Age,
             cache = [], lruQueue = [], disposed = [] \<rparr>
           :: (string, string, nat, string list) Cache) = Some s"
     "peek (fst (?es ! 0)) s = None"
     "\<forall>i \<in> {1..2}. peek (fst (?es ! i)) s = Some (fst (snd (?es ! i)))"
     "map fst (cache s) = tl (map fst ?es)"
     "disposed s = (case hd ?es of (k, v, opts, now) \<Rightarrow> callbacks (newItem now v opts
              (\<lparr> defaultTTL = PosInf, maximalItemCount = Num 2, evictExceedingItemsBy = Age,
             cache = [], lruQueue = [], disposed = [] \<rparr>
           :: (string, string, nat, string list) Cache)))"
    by blast
  have "(1::nat) \<in> {1..2}" and "(2::nat) \<in> {1..2}"
    by simp_all
  from bspec [OF s(3) this(1)] bspec [OF s(3) this(2)]
  have "peek ''k2'' s = Some ''y''" and "peek ''k3'' s = Some ''z''"
    by simp_all
  with s(1,2,4,5) made show ?thesis
    by (simp add: callbacks_def newItem_def)
qed

text \<open>
  C10 (overwrite at full capacity): \<open>set\<close> with a positive TTL on a key that is
  present, in a store that holds exactly \<open>maximalItemCount\<close> items. The loop runs one
  pass before the write. Under \<open>age\<close> the victim is the first key of the store;
  under \<open>lru\<close> it is the key \<open>shift()\<close> returns. When the victim is tracked, its
  callback is called, it is removed, and then the key is pushed and the item
  written: the store ends at capacity if the victim was the key being overwritten,
  and one below capacity otherwise. Under \<open>lru\<close>, when \<open>shift()\<close> returns
  \<open>undefined\<close> or an untracked key, \<open>set\<close> throws a TypeError and writes nothing.
  So no overwrite at full capacity happens without a removal. This holds for every
  queue implementation \<open>Q\<close>.
\<close>

theorem overwrite_at_capacity:
  fixes Q :: "('k, 'q) queue_ops" and s :: "('k, 'v, 'd, 'q) Cache"
  assumes "distinct (map fst (cache s))"
    and "maximalItemCount s = Num (real (size_c s))"
    and "has key s"
    and "Num 0 < ttl_of opts s"
  shows "(evictExceedingItemsBy s = Age \<longrightarrow>
           (\<exists>victim i s1. map_first_key (cache s) = Some victim \<and> peekItem victim s = Some i \<and>
              set_c Q now key v opts s = Some (Inr True, s1) \<and>
              s1 = s\<lparr>disposed := disposed s @ callbacks i,
                     lruQueue := queue_push Q key (queue_delete Q victim (lruQueue s)),
                     cache := map_set key (newItem now v opts s) (map_delete victim (cache s))\<rparr> \<and>
              size_c s1 = (if victim = key then size_c s else size_c s - 1))) \<and>
         (evictExceedingItemsBy s = Lru \<longrightarrow>
           (case queue_shift Q (lruQueue s) of
              (None, q) \<Rightarrow> set_c Q now key v opts s = Some (Inl TypeError, s\<lparr>lruQueue := q\<rparr>)
            | (Some victim, q) \<Rightarrow>
                (case peekItem victim s of
                   None \<Rightarrow> set_c Q now key v opts s = Some (Inl TypeError, s\<lparr>lruQueue := q\<rparr>)
                 | Some i \<Rightarrow>
                     (\<exists>s1. set_c Q now key v opts s = Some (Inr True, s1) \<and>
                        s1 = s\<lparr>disposed := disposed s @ callbacks i,
                               lruQueue := queue_push Q key (queue_delete Q victim q),
                               cache := map_set key (newItem now v opts s)
                                          (map_delete victim (cache s))\<rparr> \<and>
                        size_c s1 = (if victim = key then size_c s else size_c s - 1)))))"
proof (intro conjI impI)
  have full: "maximalItemCount s = Num (real (length (cache s)))"
    using assms(2) by (simp add: size_c_def map_size_def)
  have ttl: "\<not> ttl_of opts s \<le> Num 0"
    using assms(4) by (simp add: not_le)
  have key: "key \<in> set (map fst (cache s))"
    using assms(3) by (simp add: has_def map_has_iff)
  {
    assume age: "evictExceedingItemsBy s = Age"
    from key obtain k0 i0 r where c: "cache s = (k0, i0) # r"
      by (cases "cache s") auto
    have tracked: "map_get k0 (cache s) = Some i0"
      by (simp add: c map_get_def)
    have "k0 \<in> set (map fst (cache s))"
      by (simp add: c)
    from size_after_overwrite [OF assms(1) key this]
      set_c_full_evicting [OF full ttl evictOne_age [OF age c] tracked, where now = now and key = key and v = v]
    show "\<exists>victim i s1. map_first_key (cache s) = Some victim \<and> peekItem victim s = Some i \<and>
              set_c Q now key v opts s = Some (Inr True, s1) \<and>
              s1 = s\<lparr>disposed := disposed s @ callbacks i,
                     lruQueue := queue_push Q key (queue_delete Q victim (lruQueue s)),
                     cache := map_set key (newItem now v opts s) (map_delete victim (cache s))\<rparr> \<and>
              size_c s1 = (if victim = key then size_c s else size_c s - 1)"
      using tracked c by (simp add: map_first_key_def peekItem_def size_c_def map_size_def)
  }
  {
    assume lru: "evictExceedingItemsBy s = Lru"
    obtain ko q where sh: "queue_shift Q (lruQueue s) = (ko, q)"
      by (cases "queue_shift Q (lruQueue s)")
    have over: "maximalItemCount s \<le> Num (real (map_size (cache s)))"
      using full by (simp add: map_size_def)
    show "case queue_shift Q (lruQueue s) of
              (None, q) \<Rightarrow> set_c Q now key v opts s = Some (Inl TypeError, s\<lparr>lruQueue := q\<rparr>)
            | (Some victim, q) \<Rightarrow>
                (case peekItem victim s of
                   None \<Rightarrow> set_c Q now key v opts s = Some (Inl TypeError, s\<lparr>lruQueue := q\<rparr>)
                 | Some i \<Rightarrow>
                     (\<exists>s1. set_c Q now key v opts s = Some (Inr True, s1) \<and>
                        s1 = s\<lparr>disposed := disposed s @ callbacks i,
                               lruQueue := queue_push Q key (queue_delete Q victim q),
                               cache := map_set key (newItem now v opts s)
                                          (map_delete victim (cache s))\<rparr> \<and>
                        size_c s1 = (if victim = key then size_c s else size_c s - 1)))"
    proof (cases ko)
      case None
      with evictLoop_throw [OF over evictOne_lru_none [OF lru sh [unfolded None]]] sh ttl
      show ?thesis by (simp add: set_c_def)
    next
      case (Some victim)
      note sh' = sh [unfolded Some]
      show ?thesis
      proof (cases "map_get victim (cache s)")
        case None
        with evictLoop_throw [OF over evictOne_lru_untracked [OF lru sh' None]] sh' ttl
        show ?thesis by (simp add: set_c_def peekItem_def)
      next
        case (Some i)
        from map_get_Some_key [OF Some] have "victim \<in> set (map fst (cache s))" .
        from size_after_overwrite [OF assms(1) key this]
          set_c_full_evicting [OF full ttl evictOne_lru_tracked [OF lru sh' Some] Some, where now = now and key = key and v = v]
        show ?thesis
          using sh' Some by (simp add: peekItem_def size_c_def map_size_def)
      qed
    qed
  }
qed

text \<open>
  Capacity 2, strategy \<open>lru\<close>, the keys \<open>a\<close> (least recently used) and \<open>b\<close>.
  Overwriting \<open>a\<close> evicts \<open>a\<close> itself and leaves two items; overwriting \<open>b\<close>
  evicts \<open>a\<close> and leaves one.
\<close>

theorem overwrite_at_capacity_witness:
  "set_c LRUQueue (Num 9) ''a'' ''x2''
     \<lparr> opt_ttl = None, opt_storageTimestamp = None, opt_dispose = Some (3::nat) \<rparr>
     \<lparr> defaultTTL = PosInf, maximalItemCount = Num 2, evictExceedingItemsBy = Lru,
       cache = [(''a'', \<lparr> item_value = ''x'', expireAfterTimestamp = PosInf,
                          storageTimestamp = Num 1, item_dispose = Some 1 \<rparr>),
                (''b'', \<lparr> item_value = ''y'', expireAfterTimestamp = PosInf,
                          storageTimestamp = Num 2, item_dispose = Some 2 \<rparr>)],
       lruQueue = [''a'', ''b''], disposed = [] \<rparr> =
     Some (Inr True,
       \<lparr> defaultTTL = PosInf, maximalItemCount = Num 2, evictExceedingItemsBy = Lru,
         cache = [(''b'', \<lparr> item_value = ''y'', expireAfterTimestamp = PosInf,
                            storageTimestamp = Num 2, item_dispose = Some 2 \<rparr>),
                  (''a'', \<lparr> item_value = ''x2'', expireAfterTimestamp = PosInf,
                            storageTimestamp = Num 9, item_dispose = Some 3 \<rparr>)],
         lruQueue = [''b'', ''a''], disposed = [1] \<rparr>) \<and>
   set_c LRUQueue (Num 9) ''b'' ''y2''
     \<lparr> opt_ttl = None, opt_storageTimestamp = None, opt_dispose = Some (3::nat) \<rparr>
     \<lparr> defaultTTL = PosInf, maximalItemCount = Num 2, evictExceedingItemsBy = Lru,
       cache = [(''a'', \<lparr> item_value = ''x'', expireAfterTimestamp = PosInf,
                          storageTimestamp = Num 1, item_dispose = Some 1 \<rparr>),
                (''b'', \<lparr> item_value = ''y'', expireAfterTimestamp = PosInf,
                          storageTimestamp = Num 2, item_dispose = Some 2 \<rparr>)],
       lruQueue = [''a'', ''b''], disposed = [] \<rparr> =
     Some (Inr True,
       \<lparr> defaultTTL = PosInf, maximalItemCount = Num 2, evictExceedingItemsBy = Lru,
         cache = [(''b'', \<lparr> item_value = ''y2'', expireAfterTimestamp = PosInf,
                            storageTimestamp = Num 9, item_dispose = Some 3 \<rparr>)],
         lruQueue = [''b'', ''b''], disposed = [1] \<rparr>)"
  using overwrite_at_capacity [where Q = LRUQueue and key = "''a''" and now = "Num 9" and v = "''x2''"
      and opts = "\<lparr> opt_ttl = None, opt_storageTimestamp = None, opt_dispose = Some (3::nat) \<rparr>"
      and s = "\<lparr> defaultTTL = PosInf, maximalItemCount = Num 2, evictExceedingItemsBy = Lru,
       cache = [(''a'', \<lparr> item_value = ''x'', expireAfterTimestamp = PosInf,
                          storageTimestamp = Num 1, item_dispose = Some 1 \<rparr>),
                (''b'', \<lparr> item_value = ''y'', expireAfterTimestamp = PosInf,
                          storageTimestamp = Num 2, item_dispose = Some 2 \<rparr>)],
       lruQueue = [''a'', ''b''], disposed = [] \<rparr>"]
    overwrite_at_capacity [where Q = LRUQueue and key = "''b''" and now = "Num 9" and v = "''y2''"
      and opts = "\<lparr> opt_ttl = None, opt_storageTimestamp = None, opt_dispose = Some (3::nat) \<rparr>"
      and s = "\<lparr> defaultTTL = PosInf, maximalItemCount = Num 2, evictExceedingItemsBy = Lru,
       cache = [(''a'', \<lparr> item_value = ''x'', expireAfterTimestamp = PosInf,
                          storageTimestamp = Num 1, item_dispose = Some 1 \<rparr>),
                (''b'', \<lparr> item_value = ''y'', expireAfterTimestamp = PosInf,
                          storageTimestamp = Num 2, item_dispose = Some 2 \<rparr>)],
       lruQueue = [''a'', ''b''], disposed = [] \<rparr>"]
  by (simp add: size_c_def map_size_def has_def map_has_def ttl_of_def LRUQueue_def
      LRUQueue_shift_def LRUQueue_delete_def LRUQueue_push_def peekItem_def map_get_def
      callbacks_def newItem_def storageTimestamp_of_def map_delete_def)

text \<open>
  C6 (sweep): on a store with one entry per key (as every Map has),
  \<open>evictExpiredItems(t)\<close> returns, calls the callbacks of exactly the items whose
  expiry is at most \<open>t\<close>, in insertion order, and removes exactly those items; every
  other entry stays as it is, in its place. The only calls on the queue are
  \<open>delete(k)\<close> for the expired keys \<open>k\<close>; this much holds for every queue
  implementation \<open>Q\<close>. With the queue as the spec describes it, these deletes leave
  the other keys in their recency order.
\<close>

theorem sweep_correct:
  fixes Q :: "('k, 'q) queue_ops" and s :: "('k, 'v, 'd, 'q) Cache"
  assumes "distinct (map fst (cache s))"
  shows "evictExpiredItems Q t s =
     (Inr (),
      s\<lparr>disposed := disposed s @
           concat (map (\<lambda>e. callbacks (snd e))
             (filter (\<lambda>e. expireAfterTimestamp (snd e) \<le> t) (cache s))),
        lruQueue := fold (queue_delete Q)
           (map fst (filter (\<lambda>e. expireAfterTimestamp (snd e) \<le> t) (cache s))) (lruQueue s),
        cache := filter (\<lambda>e. \<not> expireAfterTimestamp (snd e) \<le> t) (cache s)\<rparr>) \<and>
     (\<forall>s' :: ('k, 'v, 'd, 'k list) Cache. distinct (map fst (cache s')) \<longrightarrow>
        lruQueue (snd (evictExpiredItems LRUQueue t s')) =
          filter (\<lambda>k. k \<notin> set (map fst
                    (filter (\<lambda>e. expireAfterTimestamp (snd e) \<le> t) (cache s'))))
            (lruQueue s'))"
proof (intro conjI allI impI)
  show "evictExpiredItems Q t s =
     (Inr (),
      s\<lparr>disposed := disposed s @
           concat (map (\<lambda>e. callbacks (snd e))
             (filter (\<lambda>e. expireAfterTimestamp (snd e) \<le> t) (cache s))),
        lruQueue := fold (queue_delete Q)
           (map fst (filter (\<lambda>e. expireAfterTimestamp (snd e) \<le> t) (cache s))) (lruQueue s),
        cache := filter (\<lambda>e. \<not> expireAfterTimestamp (snd e) \<le> t) (cache s)\<rparr>)"
    by (rule evictExpiredItems_eq [OF assms])
next
  fix s' :: "('k, 'v, 'd, 'k list) Cache"
  assume d: "distinct (map fst (cache s'))"
  show "lruQueue (snd (evictExpiredItems LRUQueue t s')) =
          filter (\<lambda>k. k \<notin> set (map fst
                    (filter (\<lambda>e. expireAfterTimestamp (snd e) \<le> t) (cache s'))))
            (lruQueue s')"
    unfolding evictExpiredItems_eq [OF d] by (simp add: fold_LRUQueue_delete)
qed

text \<open>
  The state of the test "evicts expired items and leaves the rest untouched" at time
  15000, with a recency order that differs from the insertion order: \<open>b\<close> and \<open>c\<close>
  go, \<open>d\<close> and \<open>e\<close> stay, \<open>e\<close> before \<open>d\<close> in the queue as before.
\<close>

theorem sweep_correct_witness:
  "evictExpiredItems LRUQueue (Num 15000)
     \<lparr> defaultTTL = Num 5000, maximalItemCount = Num 4, evictExceedingItemsBy = Lru,
       cache = [(''b'', \<lparr> item_value = ''x'', expireAfterTimestamp = Num 15000,
                          storageTimestamp = Num 10000, item_dispose = Some (2::nat) \<rparr>),
                (''c'', \<lparr> item_value = ''x'', expireAfterTimestamp = Num 15000,
                          storageTimestamp = Num 10000, item_dispose = None \<rparr>),
                (''d'', \<lparr> item_value = ''x'', expireAfterTimestamp = Num 16000,
                          storageTimestamp = Num 11000, item_dispose = Some 4 \<rparr>),
                (''e'', \<lparr> item_value = ''x'', expireAfterTimestamp = Num 16000,
                          storageTimestamp = Num 11000, item_dispose = Some 5 \<rparr>)],
       lruQueue = [''e'', ''b'', ''d'', ''c''], disposed = [1] \<rparr> =
     (Inr (),
      \<lparr> defaultTTL = Num 5000, maximalItemCount = Num 4, evictExceedingItemsBy = Lru,
        cache = [(''d'', \<lparr> item_value = ''x'', expireAfterTimestamp = Num 16000,
                           storageTimestamp = Num 11000, item_dispose = Some 4 \<rparr>),
                 (''e'', \<lparr> item_value = ''x'', expireAfterTimestamp = Num 16000,
                           storageTimestamp = Num 11000, item_dispose = Some 5 \<rparr>)],
        lruQueue = [''e'', ''d''], disposed = [1, 2] \<rparr>)"
  using sweep_correct [where Q = LRUQueue and t = "Num 15000" and s =
     "\<lparr> defaultTTL = Num 5000, maximalItemCount = Num 4, evictExceedingItemsBy = Lru,
       cache = [(''b'', \<lparr> item_value = ''x'', expireAfterTimestamp = Num 15000,
                          storageTimestamp = Num 10000, item_dispose = Some (2::nat) \<rparr>),
                (''c'', \<lparr> item_value = ''x'', expireAfterTimestamp = Num 15000,
                          storageTimestamp = Num 10000, item_dispose = None \<rparr>),
                (''d'', \<lparr> item_value = ''x'', expireAfterTimestamp = Num 16000,
                          storageTimestamp = Num 11000, item_dispose = Some 4 \<rparr>),
                (''e'', \<lparr> item_value = ''x'', expireAfterTimestamp = Num 16000,
                          storageTimestamp = Num 11000, item_dispose = Some 5 \<rparr>)],
       lruQueue = [''e'', ''b'', ''d'', ''c''], disposed = [1] \<rparr>", THEN conjunct1]
  by (simp add: callbacks_def LRUQueue_def LRUQueue_delete_def)







text \<open>
  C5 (dispose semantics), as the claim states it, fails in one point: a \<open>set\<close> that
  overwrites a live key can call the replaced item's callback. Capacity 1, the key
  \<open>a\<close> stored with callback 1: \<open>set('a', 'y')\<close> finds the store full, the loop
  evicts \<open>a\<close> and calls callback 1, and only then the new item is written.
\<close>

theorem dispose_on_overwrite_counterexample:
  "has ''a''
     (\<lparr> defaultTTL = PosInf, maximalItemCount = Num 1, evictExceedingItemsBy = Age,
        cache = [(''a'', \<lparr> item_value = ''x'', expireAfterTimestamp = PosInf,
                           storageTimestamp = Num 1, item_dispose = Some (1::nat) \<rparr>)],
        lruQueue = [''a''], disposed = [] \<rparr>
      :: (string, string, nat, string list) Cache) \<and>
   set_c LRUQueue (Num 2) ''a'' ''y''
     \<lparr> opt_ttl = None, opt_storageTimestamp = None, opt_dispose = Some 2 \<rparr>
     \<lparr> defaultTTL = PosInf, maximalItemCount = Num 1, evictExceedingItemsBy = Age,
       cache = [(''a'', \<lparr> item_value = ''x'', expireAfterTimestamp = PosInf,
                          storageTimestamp = Num 1, item_dispose = Some (1::nat) \<rparr>)],
       lruQueue = [''a''], disposed = [] \<rparr> =
     Some (Inr True,
       \<lparr> defaultTTL = PosInf, maximalItemCount = Num 1, evictExceedingItemsBy = Age,
         cache = [(''a'', \<lparr> item_value = ''y'', expireAfterTimestamp = PosInf,
                            storageTimestamp = Num 2, item_dispose = Some 2 \<rparr>)],
         lruQueue = [''a''], disposed = [1] \<rparr>)"
  by (simp add: has_def map_has_def set_c_def ttl_of_def newItem_def storageTimestamp_of_def
      evictLoop.simps map_size_def evictOne_def deleteOldestItem_def map_first_key_def
      delete_def dispose_def peekItem_def map_get_def map_delete_def LRUQueue_simps)

text \<open>
  C5 (dispose semantics), amended. The calls are any sequence of public calls on a
  constructed cache, whatever store it was given. Every call returns, and the
  callbacks called so far together with those of the items still stored are among
  those of the items the store began with and those handed to \<open>set\<close>, counted as
  often as they were handed over: an item's callback is called at most once, and
  once called its item is no longer stored. Where these callbacks are pairwise
  distinct, no callback is called twice. \<open>peek\<close> returns no state at all; \<open>get\<close> of
  a live item leaves the log and the store as they are; \<open>clear\<close> leaves the log as
  it is. The write of \<open>set\<close> calls nothing: on a present key in a store below
  capacity the new item is written and the replaced item's callback is skipped; on
  a store that is exactly full, \<open>set\<close> with a positive TTL either throws in the
  loop and writes nothing, or the loop's one pass calls the callback of its victim
  and of no other item before the write, and the victim can be the item being
  overwritten. This holds for every queue implementation \<open>Q\<close>.
\<close>

theorem dispose_semantics:
  fixes Q :: "('k, 'q) queue_ops" and s0 :: "('k, 'v, 'd, 'q) Cache"
  assumes "newCache Q args = Inr s0"
  shows "(\<exists>s. run Q calls s0 = Some s \<and>
            mset (disposed s) + mset (pending s) \<subseteq>#
              mset (pending s0) + mset (concat (map registered calls)) \<and>
            (distinct (pending s0 @ concat (map registered calls)) \<longrightarrow>
               distinct (disposed s) \<and> set (disposed s) \<inter> set (pending s) = {})) \<and>
         (\<forall>(s' :: ('k, 'v, 'd, 'q) Cache) key t i.
            peekItem key s' = Some i \<longrightarrow> t < expireAfterTimestamp i \<longrightarrow>
            disposed (snd (get_c Q key t s')) = disposed s' \<and>
            cache (snd (get_c Q key t s')) = cache s') \<and>
         (\<forall>s' :: ('k, 'v, 'd, 'q) Cache. disposed (clear Q s') = disposed s') \<and>
         (\<forall>(s' :: ('k, 'v, 'd, 'q) Cache) key now v opts.
            has key s' \<longrightarrow> \<not> maximalItemCount s' \<le> Num (real (size_c s')) \<longrightarrow>
            Num 0 < ttl_of opts s' \<longrightarrow>
            (\<exists>s1. set_c Q now key v opts s' = Some (Inr True, s1) \<and>
               disposed s1 = disposed s' \<and>
               peekItem key s1 = Some (newItem now v opts s'))) \<and>
         (\<forall>(s' :: ('k, 'v, 'd, 'q) Cache) key now v opts.
            maximalItemCount s' = Num (real (size_c s')) \<longrightarrow> 0 < size_c s' \<longrightarrow>
            Num 0 < ttl_of opts s' \<longrightarrow>
            (\<exists>q. set_c Q now key v opts s' = Some (Inl TypeError, s'\<lparr>lruQueue := q\<rparr>)) \<or>
            (\<exists>victim i s1. peekItem victim s' = Some i \<and>
               set_c Q now key v opts s' = Some (Inr True, s1) \<and>
               disposed s1 = disposed s' @ callbacks i \<and>
               cache s1 = map_set key (newItem now v opts s') (map_delete victim (cache s'))))"
proof (intro conjI allI impI)
  have s0: "Num 1 \<le> maximalItemCount s0" "disposed s0 = []"
    using newCache_Inr [OF assms(1)] by simp_all
  from run_tokens [OF s0(1), of Q calls] obtain s where
    s: "run Q calls s0 = Some s"
      "mset (disposed s @ pending s) \<subseteq># mset (pending s0 @ concat (map registered calls))"
    using s0(2) by auto
  have "distinct (disposed s) \<and> set (disposed s) \<inter> set (pending s) = {}"
    if "distinct (pending s0 @ concat (map registered calls))"
  proof -
    from s(2) that have "distinct (disposed s @ pending s)"
      by (rule distinct_mset_subseteq)
    then show ?thesis by auto
  qed
  with s show "\<exists>s. run Q calls s0 = Some s \<and>
            mset (disposed s) + mset (pending s) \<subseteq>#
              mset (pending s0) + mset (concat (map registered calls)) \<and>
            (distinct (pending s0 @ concat (map registered calls)) \<longrightarrow>
               distinct (disposed s) \<and> set (disposed s) \<inter> set (pending s) = {})"
    by auto
next
  fix s' :: "('k, 'v, 'd, 'q) Cache" and key t i
  assume live: "peekItem key s' = Some i" "t < expireAfterTimestamp i"
  then have "getItem Q key t s' = (Inr (Some i), s'\<lparr>lruQueue := queue_touch Q key (lruQueue s')\<rparr>)"
    by (intro getItem_live) (simp_all add: peekItem_def not_le)
  then show "disposed (snd (get_c Q key t s')) = disposed s'"
    and "cache (snd (get_c Q key t s')) = cache s'"
    by (simp_all add: get_c_def)
next
  fix s' :: "('k, 'v, 'd, 'q) Cache"
  show "disposed (clear Q s') = disposed s'"
    by (simp add: clear_def)
next
  fix s' :: "('k, 'v, 'd, 'q) Cache" and key now v opts
  assume "\<not> maximalItemCount s' \<le> Num (real (size_c s'))" and "Num 0 < ttl_of opts s'"
  then show "\<exists>s1. set_c Q now key v opts s' = Some (Inr True, s1) \<and>
               disposed s1 = disposed s' \<and>
               peekItem key s1 = Some (newItem now v opts s')"
    by (simp add: set_c_def evictLoop_below size_c_def not_le peekItem_def map_get_def
        map_of_map_set)
next
  fix s' :: "('k, 'v, 'd, 'q) Cache" and key now v opts
  assume "maximalItemCount s' = Num (real (size_c s'))" and "0 < size_c s'"
    and "Num 0 < ttl_of opts s'"
  then show "(\<exists>q. set_c Q now key v opts s' = Some (Inl TypeError, s'\<lparr>lruQueue := q\<rparr>)) \<or>
            (\<exists>victim i s1. peekItem victim s' = Some i \<and>
               set_c Q now key v opts s' = Some (Inr True, s1) \<and>
               disposed s1 = disposed s' @ callbacks i \<and>
               cache s1 = map_set key (newItem now v opts s') (map_delete victim (cache s')))"
    by (rule set_c_full)
qed

text \<open>
  A cache of capacity 2, strategy \<open>age\<close>, over a store that holds \<open>p\<close> with
  callback 7: \<open>set a\<close>, \<open>set b\<close> (evicts \<open>p\<close>), \<open>get b\<close>, \<open>delete b\<close>, \<open>clear\<close>,
  with the callbacks 1 and 2.
\<close>

theorem dispose_semantics_witness:
  "newCache LRUQueue
     \<lparr> arg_defaultTTL = None, arg_maximalItemCount = Some (Num 2),
       arg_cache = Some [(''p'', \<lparr> item_value = ''w'', expireAfterTimestamp = PosInf,
                                   storageTimestamp = Num 0, item_dispose = Some (7::nat) \<rparr>)],
       arg_evictExceedingItemsBy = Some Age \<rparr> =
     Inr (\<lparr> defaultTTL = PosInf, maximalItemCount = Num 2, evictExceedingItemsBy = Age,
            cache = [(''p'', \<lparr> item_value = ''w'', expireAfterTimestamp = PosInf,
                               storageTimestamp = Num 0, item_dispose = Some 7 \<rparr>)],
            lruQueue = [], disposed = [] \<rparr>
          :: (string, string, nat, string list) Cache) \<and>
   (\<exists>s. run LRUQueue
          [CSet ''a'' ''x'' \<lparr> opt_ttl = None, opt_storageTimestamp = None, opt_dispose = Some 1 \<rparr> (Num 1),
           CSet ''b'' ''y'' \<lparr> opt_ttl = None, opt_storageTimestamp = None, opt_dispose = Some 2 \<rparr> (Num 2),
           CGet ''b'' (Num 3),
           CDelete ''b'',
           CClear]
          (\<lparr> defaultTTL = PosInf, maximalItemCount = Num 2, evictExceedingItemsBy = Age,
             cache = [(''p'', \<lparr> item_value = ''w'', expireAfterTimestamp = PosInf,
                                storageTimestamp = Num 0, item_dispose = Some 7 \<rparr>)],
             lruQueue = [], disposed = [] \<rparr>
           :: (string, string, nat, string list) Cache) = Some s \<and>
        mset (disposed s) + mset (pending s) \<subseteq># mset [7, 1, 2] \<and>
        distinct (disposed s) \<and> set (disposed s) \<inter> set (pending s) = {})"
proof -
  have made:
    "newCache LRUQueue
     \<lparr> arg_defaultTTL = None, arg_maximalItemCount = Some (Num 2),
       arg_cache = Some [(''p'', \<lparr> item_value = ''w'', expireAfterTimestamp = PosInf,
                                   storageTimestamp = Num 0, item_dispose = Some (7::nat) \<rparr>)],
       arg_evictExceedingItemsBy = Some Age \<rparr> =
     Inr (\<lparr> defaultTTL = PosInf, maximalItemCount = Num 2, evictExceedingItemsBy = Age,
            cache = [(''p'', \<lparr> item_value = ''w'', expireAfterTimestamp = PosInf,
                               storageTimestamp = Num 0, item_dispose = Some 7 \<rparr>)],
            lruQueue = [], disposed = [] \<rparr>
          :: (string, string, nat, string list) Cache)"
    by (simp add: newCache_def LRUQueue_def)
  from dispose_semantics [THEN conjunct1, OF made, of
      "[CSet ''a'' ''x'' \<lparr> opt_ttl = None, opt_storageTimestamp = None, opt_dispose = Some 1 \<rparr> (Num 1),
           CSet ''b'' ''y'' \<lparr> opt_ttl = None, opt_storageTimestamp = None, opt_dispose = Some 2 \<rparr> (Num 2),
           CGet ''b'' (Num 3),
           CDelete ''b'',
           CClear]"]
  have "\<exists>s. run LRUQueue
          [CSet ''a'' ''x'' \<lparr> opt_ttl = None, opt_storageTimestamp = None, opt_dispose = Some 1 \<rparr> (Num 1),
           CSet ''b'' ''y'' \<lparr> opt_ttl = None, opt_storageTimestamp = None, opt_dispose = Some 2 \<rparr> (Num 2),
           CGet ''b'' (Num 3),
           CDelete ''b'',
           CClear]
          (\<lparr> defaultTTL = PosInf, maximalItemCount = Num 2, evictExceedingItemsBy = Age,
             cache = [(''p'', \<lparr> item_value = ''w'', expireAfterTimestamp = PosInf,
                                storageTimestamp = Num 0, item_dispose = Some 7 \<rparr>)],
             lruQueue = [], disposed = [] \<rparr>
           :: (string, string, nat, string list) Cache) = Some s \<and>
        mset (disposed s) + mset (pending s) \<subseteq># mset [7, 1, 2] \<and>
        distinct (disposed s) \<and> set (disposed s) \<inter> set (pending s) = {}"
    by (simp add: pending_def callbacks_def add_mset_commute)
  with made show ?thesis
    by (rule conjI)
qed

end
